theory Spec2Isabelle
  imports Main
begin

section \<open>Sparse matrices in compressed-row form\<close>

text \<open>
  The notebook \<^verbatim>\<open>5_feature_extraction.ipynb\<close> works on scipy's \<^verbatim>\<open>csr_matrix\<close>:
  a shape, the row-boundary array \<^verbatim>\<open>indptr\<close> and the parallel arrays \<^verbatim>\<open>indices\<close>
  (column of each stored entry) and \<^verbatim>\<open>data\<close> (its value). Row \<open>i\<close> owns the stored
  entries at positions \<open>indptr[i] ..< indptr[i+1]\<close>. The row boundaries are integers
  (the code subtracts them) and the columns are naturals. The values have the dtype
  \<^verbatim>\<open>np.int64\<close> (the encoder, the mask and the accumulator are all created with it); they
  are written as integers, and the places where the library computes with them say when
  that is the same.
\<close>

datatype error = IndexError | ValueError

record csr =
  nrows :: nat
  ncols :: nat
  indptr :: "int list"
  indices :: "nat list"
  data :: "int list"

text \<open>Python slices \<^verbatim>\<open>xs[:n]\<close> and \<^verbatim>\<open>xs[n:]\<close>; a negative bound counts from the end.\<close>

definition py_take :: "int \<Rightarrow> 'a list \<Rightarrow> 'a list" where
  "py_take n xs = (if 0 \<le> n then take (nat n) xs else take (length xs - nat (- n)) xs)"

definition py_drop :: "int \<Rightarrow> 'a list \<Rightarrow> 'a list" where
  "py_drop n xs = (if 0 \<le> n then drop (nat n) xs else drop (length xs - nat (- n)) xs)"

text \<open>The stored entries of row \<open>i\<close>, as (column, value) pairs, and the entry \<open>X[i, c]\<close>
  (scipy adds up the stored values of one column).\<close>

definition csr_row :: "csr \<Rightarrow> nat \<Rightarrow> (nat \<times> int) list" where
  "csr_row m i =
     (let a = nat (indptr m ! i); b = nat (indptr m ! Suc i)
      in zip (take (b - a) (drop a (indices m))) (take (b - a) (drop a (data m))))"

definition csr_rows :: "csr \<Rightarrow> (nat \<times> int) list list" where
  "csr_rows m = map (csr_row m) [0..<nrows m]"

definition row_get :: "(nat \<times> int) list \<Rightarrow> nat \<Rightarrow> int" where
  "row_get r c = sum_list (map snd (filter (\<lambda>e. fst e = c) r))"

definition csr_get :: "csr \<Rightarrow> nat \<Rightarrow> nat \<Rightarrow> int" where
  "csr_get m i c = row_get (csr_row m i) c"

text \<open>scipy's \<^verbatim>\<open>getnnz\<close> is the last row boundary.\<close>

definition getnnz :: "csr \<Rightarrow> int" where
  "getnnz m = last (indptr m)"

text \<open>The matrix that stores the given rows one after the other.\<close>

fun row_ptrs :: "int \<Rightarrow> 'a list list \<Rightarrow> int list" where
  "row_ptrs a [] = [a]"
| "row_ptrs a (r # rs) = a # row_ptrs (a + int (length r)) rs"

definition of_rows :: "nat \<Rightarrow> (nat \<times> int) list list \<Rightarrow> csr" where
  "of_rows k rs =
     \<lparr>nrows = length rs, ncols = k, indptr = row_ptrs 0 rs,
      indices = map fst (concat rs), data = map snd (concat rs)\<rparr>"

text \<open>Dense rows: the library's results (product, sum, stacking) are described by their
  dense contents and stored without zeros, columns ascending.\<close>

definition dense_row :: "nat \<Rightarrow> (nat \<times> int) list \<Rightarrow> int list" where
  "dense_row k r = map (row_get r) [0..<k]"

definition sparse_row :: "int list \<Rightarrow> (nat \<times> int) list" where
  "sparse_row d = filter (\<lambda>e. snd e \<noteq> 0) (enumerate 0 d)"

definition todense :: "csr \<Rightarrow> int list list" where
  "todense m = map (dense_row (ncols m)) (csr_rows m)"

definition from_dense :: "nat \<Rightarrow> int list list \<Rightarrow> csr" where
  "from_dense k d = of_rows k (map sparse_row d)"

text \<open>\<^verbatim>\<open>csr_matrix(shape)\<close>: the empty matrix of that shape.\<close>

definition csr_zero :: "nat \<Rightarrow> nat \<Rightarrow> csr" where
  "csr_zero n k = \<lparr>nrows = n, ncols = k, indptr = replicate (Suc n) 0, indices = [], data = []\<rparr>"

subsection \<open>scipy's format check\<close>

text \<open>
  \<^verbatim>\<open>check_format\<close> raises ValueError when the row-boundary array has the wrong length or
  does not start at 0, when \<^verbatim>\<open>indices\<close> and \<^verbatim>\<open>data\<close> differ in length or are shorter
  than the last row boundary; it then prunes both arrays to that boundary and, when
  entries remain, raises on a column out of range or on decreasing row boundaries. It
  does not look at the order of the columns inside a row. Columns are naturals here, so
  the library's test for a negative column cannot fire.
\<close>

definition prune :: "csr \<Rightarrow> csr" where
  "prune m = m\<lparr>indices := py_take (getnnz m) (indices m), data := py_take (getnnz m) (data m)\<rparr>"

definition check_format :: "csr \<Rightarrow> error + csr" where
  "check_format m =
     (if length (indptr m) \<noteq> nrows m + 1 then Inl ValueError
      else if indptr m ! 0 \<noteq> 0 then Inl ValueError
      else if length (indices m) \<noteq> length (data m) then Inl ValueError
      else if int (length (indices m)) < getnnz m then Inl ValueError
      else let y = prune m in
        if 0 < getnnz y \<and> list_ex (\<lambda>j. ncols y \<le> j) (indices y) then Inl ValueError
        else if 0 < getnnz y \<and> \<not> sorted (indptr y) then Inl ValueError
        else Inr y)"

section \<open>The notebook's functions\<close>

subsection \<open>is_same_after_shift\<close>

text \<open>\<^verbatim>\<open>np.roll(v, s)\<close>: entry \<open>i\<close> of the result is entry \<open>(i - s) mod n\<close> of \<open>v\<close>.\<close>

definition np_roll :: "'a list \<Rightarrow> int \<Rightarrow> 'a list" where
  "np_roll v s = map (\<lambda>i. v ! nat ((int i - s) mod int (length v))) [0..<length v]"

text \<open>\<^verbatim>\<open>(vector == np.roll(vector, shift)).astype(np.int64)\<close>\<close>

definition is_same_after_shift :: "'a list \<Rightarrow> int \<Rightarrow> int list" where
  "is_same_after_shift v s = map2 (\<lambda>a b. if a = b then 1 else 0) v (np_roll v s)"

subsection \<open>csr_shift\<close>

text \<open>
  \<^verbatim>\<open>csr.indptr[-1]\<close>, \<^verbatim>\<open>csr.indptr[-2]\<close> and \<^verbatim>\<open>csr.indptr[1]\<close> raise IndexError on a
  row-boundary array with fewer than two entries, and so does \<^verbatim>\<open>np.delete(a, -1)\<close> on an
  empty array. \<^verbatim>\<open>np.insert(a, 0, 0)\<close> puts a 0 in front, \<^verbatim>\<open>a[:-1]\<close> drops the last entry.
\<close>

definition csr_shift :: "csr \<Rightarrow> bool \<Rightarrow> error + csr" where
  "csr_shift m down =
     (let p = indptr m in
      if down then
        (let y = m\<lparr>indptr := 0 # butlast p\<rparr> in
         if length p < 2 then Inl IndexError
         else if last p \<noteq> p ! (length p - 2) then
           (if indices m = [] \<or> data m = [] then Inl IndexError
            else check_format (y\<lparr>indices := butlast (indices m), data := butlast (data m)\<rparr>))
         else check_format y)
      else
        (if length p < 2 then Inl IndexError
         else
           let q = 0 # map (\<lambda>x. x - p ! 1) (drop 2 p);
               y = m\<lparr>indptr := q @ [last q]\<rparr>;
               number_of_values_to_drop = p ! 1
           in if number_of_values_to_drop \<noteq> 0 then
                check_format (y\<lparr>indices := py_drop number_of_values_to_drop (indices m),
                                data := py_drop number_of_values_to_drop (data m)\<rparr>)
              else check_format y))"

subsection \<open>csr_cum_sum and extract_features\<close>

text \<open>
  \<^verbatim>\<open>same_company.T.multiply(shifted_csr)\<close>: the mask is a column of \<open>M\<close> entries, the
  matrix has \<open>N\<close> rows. For \<open>M = N\<close> the library scales row \<open>i\<close> by entry \<open>i\<close> of the
  mask; a mask of one entry is a scalar and scales every row; any other pair of shapes
  ends in ValueError (in the product, or in the sum that follows it).
\<close>

definition mask_multiply :: "int list \<Rightarrow> csr \<Rightarrow> error + csr" where
  "mask_multiply s m =
     (if length s = nrows m then
        Inr (from_dense (ncols m) (map2 (\<lambda>b r. map (\<lambda>x. b * x) r) s (todense m)))
      else if length s = 1 then
        Inr (from_dense (ncols m) (map (map (\<lambda>x. s ! 0 * x)) (todense m)))
      else Inl ValueError)"

text \<open>
  The sum of two sparse matrices (\<^verbatim>\<open>+=\<close>) and \<^verbatim>\<open>hstack\<close> of two. The library multiplies
  and adds in \<^verbatim>\<open>np.int64\<close>, which wraps around beyond \<open>\<plusminus> 2\<^sup>6\<^sup>3\<close>; \<open>mask_multiply\<close> and
  \<open>csr_add\<close> compute with the integers themselves, so they are the library's operations
  exactly as long as no product or sum leaves that range. A product with the 0/1 mask
  is 0 or the value itself. The theorem about the size of the counts (monotonicity in the window)
  carries a bound on the total of the stored values under which no sum does; the other
  theorems do not depend on magnitudes beyond counts of 0/1 entries, which are bounded
  by the number of tokens.
\<close>

definition csr_add :: "csr \<Rightarrow> csr \<Rightarrow> error + csr" where
  "csr_add a b =
     (if nrows a = nrows b \<and> ncols a = ncols b then
        Inr (from_dense (ncols a) (map2 (map2 (+)) (todense a) (todense b)))
      else Inl ValueError)"

definition hstack :: "csr \<Rightarrow> csr \<Rightarrow> error + csr" where
  "hstack a b =
     (if nrows a = nrows b then
        Inr (from_dense (ncols a + ncols b) (map2 (@) (todense a) (todense b)))
      else Inl ValueError)"

text \<open>The body of the loop \<^verbatim>\<open>for i in range(1, window_size + 1)\<close>, run over the list of
  the values of \<open>i\<close>; the state is \<^verbatim>\<open>(cumsum_scr, shifted_csr)\<close>.\<close>

fun cum_steps :: "int list \<Rightarrow> 'g list \<Rightarrow> bool \<Rightarrow> csr \<Rightarrow> csr \<Rightarrow> error + (csr \<times> csr)" where
  "cum_steps [] company_vector is_above cumsum_scr shifted_csr = Inr (cumsum_scr, shifted_csr)"
| "cum_steps (i # rest) company_vector is_above cumsum_scr shifted_csr =
     (let same_company = is_same_after_shift company_vector (i * (if is_above then 1 else - 1)) in
      case csr_shift shifted_csr is_above of
        Inl e \<Rightarrow> Inl e
      | Inr shifted' \<Rightarrow>
          (case mask_multiply same_company shifted' of
             Inl e \<Rightarrow> Inl e
           | Inr masked \<Rightarrow>
               (case csr_add cumsum_scr masked of
                  Inl e \<Rightarrow> Inl e
                | Inr cumsum' \<Rightarrow> cum_steps rest company_vector is_above cumsum' shifted')))"

definition csr_cum_sum :: "csr \<Rightarrow> 'g list \<Rightarrow> int \<Rightarrow> bool \<Rightarrow> error + csr" where
  "csr_cum_sum onehot_csr company_vector window_size is_above =
     (case cum_steps [1..window_size] company_vector is_above
             (csr_zero (nrows onehot_csr) (ncols onehot_csr)) onehot_csr of
        Inl e \<Rightarrow> Inl e
      | Inr st \<Rightarrow> Inr (fst st))"

definition extract_features :: "csr \<Rightarrow> 'g list \<Rightarrow> int \<Rightarrow> error + csr" where
  "extract_features onehot_csr company_vec window_size =
     (case csr_cum_sum onehot_csr company_vec window_size True of
        Inl e \<Rightarrow> Inl e
      | Inr above_counts \<Rightarrow>
          (case csr_cum_sum onehot_csr company_vec window_size False of
             Inl e \<Rightarrow> Inl e
           | Inr below_counts \<Rightarrow> hstack above_counts below_counts))"

subsection \<open>The one-hot encoding handed to the accumulator\<close>

text \<open>
  \<^verbatim>\<open>OneHotEncoder(categories=[best_features], handle_unknown='ignore')\<close> on a list of
  distinct categories: row \<open>i\<close> stores a 1 in the column whose category is word \<open>i\<close>, and
  nothing when the word is no category. (On a list with repeated categories the
  definition marks every matching column; the theorems below use it on distinct lists
  only.)
\<close>

definition one_hot_encode :: "'w list \<Rightarrow> 'w list \<Rightarrow> csr" where
  "one_hot_encode categories words =
     of_rows (length categories)
       (map (\<lambda>w. map (\<lambda>c. (c, 1)) (filter (\<lambda>c. categories ! c = w) [0..<length categories]))
          words)"

section \<open>The properties' vocabulary\<close>

text \<open>Well-formed compressed rows: the arrays fit the shape, the row boundaries start
  at 0, do not decrease and end at the number of stored entries, every column is in
  range and the columns of each row ascend.\<close>

definition csr_wf :: "csr \<Rightarrow> bool" where
  "csr_wf m =
     (length (indptr m) = nrows m + 1 \<and> indptr m ! 0 = 0 \<and> sorted (indptr m) \<and>
      last (indptr m) = int (length (indices m)) \<and> length (data m) = length (indices m) \<and>
      list_all (\<lambda>j. j < ncols m) (indices m) \<and>
      list_all (\<lambda>r. sorted (map fst r)) (csr_rows m))"

text \<open>The mask as the specification words it: the rotated comparison with the first
  (earlier) or last (later) \<open>d\<close> entries forced to false.\<close>

definition same_group_at_distance :: "'g list \<Rightarrow> nat \<Rightarrow> bool \<Rightarrow> int list" where
  "same_group_at_distance v d earlier =
     map (\<lambda>i. if (if earlier then i < d else length v \<le> i + d) then 0
              else is_same_after_shift v (if earlier then int d else - int d) ! i)
       [0..<length v]"

text \<open>Every group occupies one run of positions: a group that shows up again at \<open>k\<close>
  after \<open>i\<close> holds every position in between.\<close>

definition contiguous_runs :: "'g list \<Rightarrow> bool" where
  "contiguous_runs v =
     list_all (\<lambda>k. list_all (\<lambda>i. list_all (\<lambda>j. v ! i \<noteq> v ! k \<or> v ! j = v ! k) [i..<k]) [0..<k])
       [0..<length v]"

text \<open>The direct scan of one group: its positions, its labels in order, and the number
  of labels equal to \<open>c\<close> among the \<open>W\<close> entries before (after) entry \<open>a\<close> of a label list.\<close>

definition group_positions :: "'g list \<Rightarrow> 'g \<Rightarrow> nat list" where
  "group_positions v g = filter (\<lambda>i. v ! i = g) [0..<length v]"

definition window_count :: "'w list \<Rightarrow> nat \<Rightarrow> bool \<Rightarrow> nat \<Rightarrow> 'w \<Rightarrow> int" where
  "window_count ls W earlier a c =
     int (length (filter (\<lambda>b. ls ! b = c \<and> (if earlier then b < a \<and> a \<le> b + W else a < b \<and> b \<le> a + W))
                    [0..<length ls]))"

text \<open>The accumulator with the mask of the specification in place of the code's.\<close>

fun cum_steps_forced :: "int list \<Rightarrow> 'g list \<Rightarrow> bool \<Rightarrow> csr \<Rightarrow> csr \<Rightarrow> error + (csr \<times> csr)" where
  "cum_steps_forced [] company_vector is_above cumsum_scr shifted_csr = Inr (cumsum_scr, shifted_csr)"
| "cum_steps_forced (i # rest) company_vector is_above cumsum_scr shifted_csr =
     (let same_company = same_group_at_distance company_vector (nat i) is_above in
      case csr_shift shifted_csr is_above of
        Inl e \<Rightarrow> Inl e
      | Inr shifted' \<Rightarrow>
          (case mask_multiply same_company shifted' of
             Inl e \<Rightarrow> Inl e
           | Inr masked \<Rightarrow>
               (case csr_add cumsum_scr masked of
                  Inl e \<Rightarrow> Inl e
                | Inr cumsum' \<Rightarrow> cum_steps_forced rest company_vector is_above cumsum' shifted')))"

definition csr_cum_sum_forced :: "csr \<Rightarrow> 'g list \<Rightarrow> int \<Rightarrow> bool \<Rightarrow> error + csr" where
  "csr_cum_sum_forced onehot_csr company_vector window_size is_above =
     (case cum_steps_forced [1..window_size] company_vector is_above
             (csr_zero (nrows onehot_csr) (ncols onehot_csr)) onehot_csr of
        Inl e \<Rightarrow> Inl e
      | Inr st \<Rightarrow> Inr (fst st))"

subsection \<open>Rows as lists\<close>

text \<open>What one shift does to the list of rows, the rows whose columns are below \<open>k\<close>, and
  the dense accumulator after \<open>n\<close> rounds of the loop.\<close>

definition shift_rows :: "bool \<Rightarrow> 'a list list \<Rightarrow> 'a list list" where
  "shift_rows down rs = (if down then [] # butlast rs else tl rs @ [[]])"

definition rows_in_range :: "nat \<Rightarrow> (nat \<times> int) list list \<Rightarrow> bool" where
  "rows_in_range k rs = list_all (\<lambda>r. list_all (\<lambda>e. fst e < k) r) rs"

definition masked_dense :: "nat \<Rightarrow> int list \<Rightarrow> (nat \<times> int) list list \<Rightarrow> int list list" where
  "masked_dense k s rs = map2 (\<lambda>b r. map (\<lambda>x. b * x) r) s (map (dense_row k) rs)"

fun acc_dense :: "nat \<Rightarrow> (nat \<times> int) list list \<Rightarrow> 'g list \<Rightarrow> bool \<Rightarrow> nat \<Rightarrow> int list list" where
  "acc_dense k rs v is_above 0 = replicate (length rs) (replicate k 0)"
| "acc_dense k rs v is_above (Suc n) =
     map2 (map2 (+)) (acc_dense k rs v is_above n)
       (masked_dense k (is_same_after_shift v (int (Suc n) * (if is_above then 1 else - 1)))
          ((shift_rows is_above ^^ Suc n) rs))"

text \<open>The sum the accumulator holds at row \<open>i\<close>, column \<open>c\<close> after \<open>n\<close> rounds: over the
  distances \<open>d = 1..n\<close>, the entry of the row \<open>d\<close> positions earlier (later) when that
  row exists and has the group of row \<open>i\<close>.\<close>

definition window_sum ::
  "(nat \<times> int) list list \<Rightarrow> 'g list \<Rightarrow> bool \<Rightarrow> nat \<Rightarrow> nat \<Rightarrow> nat \<Rightarrow> int" where
  "window_sum rs v is_above n i c =
     (\<Sum>d\<leftarrow>[1..<Suc n].
        if is_above then (if d \<le> i \<and> v ! (i - d) = v ! i then row_get (rs ! (i - d)) c else 0)
        else (if i + d < length rs \<and> v ! (i + d) = v ! i then row_get (rs ! (i + d)) c else 0))"

section \<open>The group-boundary mask\<close>

lemma np_roll_nth: "i < length v \<Longrightarrow> np_roll v s ! i = v ! nat ((int i - s) mod int (length v))"
  by (simp add: np_roll_def)

lemma length_np_roll [simp]: "length (np_roll v s) = length v"
  by (simp add: np_roll_def)

lemma length_is_same_after_shift [simp]: "length (is_same_after_shift v s) = length v"
  by (simp add: is_same_after_shift_def)

lemma is_same_after_shift_nth:
  "i < length v \<Longrightarrow>
   is_same_after_shift v s ! i = (if v ! i = v ! nat ((int i - s) mod int (length v)) then 1 else 0)"
  by (simp add: is_same_after_shift_def np_roll_nth)


text \<open>
  Claim C4, as the code has it. For a distance \<open>d \<ge> 1\<close> the mask has one entry per
  token. Entry \<open>i\<close> with a token \<open>d\<close> positions earlier (later) in range is 1 exactly when
  the two tokens share their group identifier. The wrapped-around boundary entries (the
  first \<open>d\<close> for "earlier", the last \<open>d\<close> for "later") are not forced to 0: such an
  entry is 1 exactly when token \<open>i\<close> and the token at the rotated position \<open>(i - d) mod N\<close>,
  respectively \<open>(i + d) mod N\<close>, share their group identifier.
\<close>

theorem is_same_after_shift_rotated:
  assumes "length v = n" and "i < n" and "1 \<le> d"
  shows "length (is_same_after_shift v (int d)) = n \<and> length (is_same_after_shift v (- int d)) = n \<and>
    (d \<le> i \<longrightarrow> is_same_after_shift v (int d) ! i = (if v ! i = v ! (i - d) then 1 else 0)) \<and>
    (i + d < n \<longrightarrow> is_same_after_shift v (- int d) ! i = (if v ! i = v ! (i + d) then 1 else 0)) \<and>
    (i < d \<longrightarrow> is_same_after_shift v (int d) ! i
                  = (if v ! i = v ! nat ((int i - int d) mod int n) then 1 else 0)) \<and>
    (n \<le> i + d \<longrightarrow> is_same_after_shift v (- int d) ! i
                  = (if v ! i = v ! ((i + d) mod n) then 1 else 0))"
proof -
  have a: "nat ((int i - int d) mod int n) = i - d" if "d \<le> i"
  proof -
    have "int i - int d = int (i - d)" using that by simp
    moreover have "int (i - d) mod int n = int (i - d)" using assms by simp
    ultimately have "nat ((int i - int d) mod int n) = nat (int (i - d))" by (simp only:)
    then show ?thesis by (simp only: nat_int)
  qed
  have b: "nat ((int i - - int d) mod int n) = (i + d) mod n"
  proof -
    have "int i - - int d = int (i + d)" by simp
    then have "nat ((int i - - int d) mod int n) = nat (int ((i + d) mod n))"
      by (simp only: zmod_int)
    then show ?thesis by (simp only: nat_int)
  qed
  have c: "(i + d) mod n = i + d" if "i + d < n" using that by simp
  have e: "is_same_after_shift v (int d) ! i
             = (if v ! i = v ! nat ((int i - int d) mod int n) then 1 else 0)"
    using assms by (simp add: is_same_after_shift_nth)
  have l: "is_same_after_shift v (- int d) ! i = (if v ! i = v ! ((i + d) mod n) then 1 else 0)"
    using assms b by (simp only: is_same_after_shift_nth)
  have e1: "d \<le> i \<Longrightarrow> is_same_after_shift v (int d) ! i = (if v ! i = v ! (i - d) then 1 else 0)"
    using e a by simp
  have l1: "i + d < n \<Longrightarrow> is_same_after_shift v (- int d) ! i = (if v ! i = v ! (i + d) then 1 else 0)"
    using l c by simp
  have len: "length (is_same_after_shift v (int d)) = n" "length (is_same_after_shift v (- int d)) = n"
    using assms by simp_all
  show ?thesis using len e e1 l l1 by blast
qed

theorem is_same_after_shift_rotated_witness:
  "is_same_after_shift [1::nat, 1] (int 1) ! 0 = 1 \<and> is_same_after_shift [1::nat, 1] (- int 1) ! 1 = 1"
  using is_same_after_shift_rotated [of "[1::nat, 1]" 2 0 1]
        is_same_after_shift_rotated [of "[1::nat, 1]" 2 1 1]
  by simp

text \<open>The claim as worded fails: in the one-group vector of two tokens, the first entry
  of the "earlier" mask at distance 1 is a wrapped-around boundary position, and it is 1.\<close>

theorem is_same_after_shift_boundary_not_forced: "is_same_after_shift [1::nat, 1] 1 ! 0 = 1"
  by (simp add: is_same_after_shift_def np_roll_def)

section \<open>The boundary scenario\<close>

text \<open>
  Claim C9. One group with the labels a, b, c, a, the vocabulary a, b, c and window 1:
  the "earlier" accumulation returns, and its counts of category a (column 0) at the
  positions 0, 1, 2, 3 are 0, 1, 0, 0.
\<close>

theorem boundary_scenario:
  "\<exists>A. csr_cum_sum (one_hot_encode [''a'', ''b'', ''c''] [''a'', ''b'', ''c'', ''a''])
          [''G'', ''G'', ''G'', ''G''] 1 True = Inr A \<and>
       map (\<lambda>i. csr_get A i 0) [0, 1, 2, 3] = [0, 1, 0, 0]"
proof -
  have "case csr_cum_sum (one_hot_encode [''a'', ''b'', ''c''] [''a'', ''b'', ''c'', ''a''])
          [''G'', ''G'', ''G'', ''G''] 1 True of
          Inl e \<Rightarrow> False
        | Inr A \<Rightarrow> map (\<lambda>i. csr_get A i 0) [0, 1, 2, 3] = [0, 1, 0, 0]"
    by code_simp
  then show ?thesis by (simp split: sum.splits)
qed

section \<open>Matrices as lists of rows\<close>

subsection \<open>Row boundaries\<close>

lemma length_row_ptrs [simp]: "length (row_ptrs a rs) = Suc (length rs)"
  by (induction rs arbitrary: a) auto

lemma row_ptrs_nth: "i \<le> length rs \<Longrightarrow> row_ptrs a rs ! i = a + int (length (concat (take i rs)))"
proof (induction rs arbitrary: a i)
  case Nil
  then show ?case by simp
next
  case (Cons r rs)
  then show ?case by (cases i) auto
qed

lemma row_ptrs_not_Nil [simp]: "row_ptrs a rs \<noteq> []"
  by (cases rs) auto

lemma row_ptrs_0 [simp]: "row_ptrs a rs ! 0 = a"
  by (cases rs) auto

lemma row_ptrs_append:
  "row_ptrs a (rs @ [r]) = row_ptrs a rs @ [a + int (length (concat rs)) + int (length r)]"
  by (induction rs arbitrary: a) auto

lemma last_row_ptrs: "last (row_ptrs a rs) = a + int (length (concat rs))"
  by (induction rs arbitrary: a) auto

lemma butlast_row_ptrs: "rs \<noteq> [] \<Longrightarrow> butlast (row_ptrs a rs) = row_ptrs a (butlast rs)"
proof (induction rs arbitrary: a)
  case Nil
  then show ?case by simp
next
  case (Cons r rs)
  then show ?case by (cases rs) auto
qed

lemma map_minus_row_ptrs: "map (\<lambda>x. x - d) (row_ptrs a rs) = row_ptrs (a - d) rs"
proof (induction rs arbitrary: a)
  case Nil
  then show ?case by simp
next
  case (Cons r rs)
  have e: "a + int (length r) - d = a - d + int (length r)" by simp
  show ?case using Cons [of "a + int (length r)"] by (simp add: e)
qed

lemma row_ptrs_lower: "x \<in> set (row_ptrs a rs) \<Longrightarrow> a \<le> x"
  by (induction rs arbitrary: a) force+

lemma sorted_row_ptrs: "sorted (row_ptrs a rs)"
  by (induction rs arbitrary: a) (auto dest: row_ptrs_lower)

lemma row_ptrs_replicate: "row_ptrs a (replicate n []) = replicate (Suc n) a"
  by (induction n) auto

subsection \<open>The rows of a matrix built from rows\<close>

lemma concat_split_nth:
  "i < length rs \<Longrightarrow> concat rs = concat (take i rs) @ rs ! i @ concat (drop (Suc i) rs)"
  by (metis concat.simps(2) concat_append id_take_nth_drop)

lemma slice_concat:
  assumes "i < length rs"
  shows "take (length (rs ! i)) (drop (length (concat (take i rs))) (map f (concat rs))) = map f (rs ! i)"
proof -
  have "map f (concat rs) = map f (concat (take i rs)) @ map f (rs ! i) @ map f (concat (drop (Suc i) rs))"
    using concat_split_nth [OF assms] by (metis map_append)
  then show ?thesis by simp
qed

lemma csr_row_of_rows: "i < length rs \<Longrightarrow> csr_row (of_rows k rs) i = rs ! i"
proof -
  assume i: "i < length rs"
  let ?a = "length (concat (take i rs))"
  have a: "nat (row_ptrs 0 rs ! i) = ?a" using i by (simp add: row_ptrs_nth)
  have "take (Suc i) rs = take i rs @ [rs ! i]" using i by (simp add: take_Suc_conv_app_nth)
  then have b: "nat (row_ptrs 0 rs ! Suc i) = ?a + length (rs ! i)"
    using i by (simp add: row_ptrs_nth)
  show ?thesis
    using i by (simp add: csr_row_def of_rows_def a b slice_concat zip_map_fst_snd)
qed

lemma nrows_of_rows [simp]: "nrows (of_rows k rs) = length rs"
  by (simp add: of_rows_def)

lemma ncols_of_rows [simp]: "ncols (of_rows k rs) = k"
  by (simp add: of_rows_def)

lemma csr_rows_of_rows [simp]: "csr_rows (of_rows k rs) = rs"
  by (rule nth_equalityI) (simp_all add: csr_rows_def csr_row_of_rows)

lemma csr_zero_of_rows: "csr_zero n k = of_rows k (replicate n [])"
  by (simp add: csr_zero_def of_rows_def row_ptrs_replicate)

subsection \<open>The format check and the shift on a matrix built from rows\<close>

lemma rows_in_range_cols: "rows_in_range k rs \<Longrightarrow> \<not> list_ex (\<lambda>j. k \<le> j) (map fst (concat rs))"
  by (fastforce simp: rows_in_range_def list_all_iff list_ex_iff)

lemma check_format_rows:
  assumes "rows_in_range k rs"
  shows "check_format \<lparr>nrows = length rs, ncols = k, indptr = row_ptrs 0 rs,
            indices = map fst (concat rs) @ j1, data = map snd (concat rs) @ j2\<rparr>
         = (if length j1 = length j2 then Inr (of_rows k rs) else Inl ValueError)"
  using rows_in_range_cols [OF assms]
  by (simp add: check_format_def prune_def getnnz_def py_take_def last_row_ptrs
      sorted_row_ptrs of_rows_def)

lemma in_set_tl: "x \<in> set (tl xs) \<Longrightarrow> x \<in> set xs"
  by (cases xs) auto

lemma rows_in_range_shift: "rows_in_range k rs \<Longrightarrow> rows_in_range k (shift_rows down rs)"
  by (auto simp: rows_in_range_def shift_rows_def list_all_iff dest!: in_set_butlastD in_set_tl)

lemma length_shift_rows [simp]: "rs \<noteq> [] \<Longrightarrow> length (shift_rows down rs) = length rs"
  by (simp add: shift_rows_def)

lemma shift_rows_not_Nil [simp]: "shift_rows down rs \<noteq> []"
  by (simp add: shift_rows_def)

lemma csr_shift_down_unfold:
  "2 \<le> length p \<Longrightarrow>
   csr_shift \<lparr>nrows = n, ncols = k, indptr = p, indices = js, data = ds\<rparr> True
   = (if last p \<noteq> p ! (length p - 2) then
        (if js = [] \<or> ds = [] then Inl IndexError
         else check_format \<lparr>nrows = n, ncols = k, indptr = 0 # butlast p,
                indices = butlast js, data = butlast ds\<rparr>)
      else check_format \<lparr>nrows = n, ncols = k, indptr = 0 # butlast p, indices = js, data = ds\<rparr>)"
  by (simp add: csr_shift_def Let_def)

lemma csr_shift_up_unfold:
  "2 \<le> length p \<Longrightarrow>
   csr_shift \<lparr>nrows = n, ncols = k, indptr = p, indices = js, data = ds\<rparr> False
   = (if p ! 1 \<noteq> 0 then
        check_format \<lparr>nrows = n, ncols = k,
           indptr = (0 # map (\<lambda>x. x - p ! 1) (drop 2 p)) @ [last (0 # map (\<lambda>x. x - p ! 1) (drop 2 p))],
           indices = py_drop (p ! 1) js, data = py_drop (p ! 1) ds\<rparr>
      else
        check_format \<lparr>nrows = n, ncols = k,
           indptr = (0 # map (\<lambda>x. x - p ! 1) (drop 2 p)) @ [last (0 # map (\<lambda>x. x - p ! 1) (drop 2 p))],
           indices = js, data = ds\<rparr>)"
  by (simp add: csr_shift_def Let_def)

lemma csr_shift_down_of_rows:
  assumes ne: "rs \<noteq> []" and rng: "rows_in_range k rs"
  shows "csr_shift (of_rows k rs) True = Inr (of_rows k (shift_rows True rs))"
proof -
  define r rs0 where "r = last rs" and "rs0 = butlast rs"
  have rs: "rs = rs0 @ [r]" using ne by (simp add: r_def rs0_def)
  have sh: "shift_rows True rs = [] # rs0" by (simp add: shift_rows_def rs0_def)
  have rng': "rows_in_range k ([] # rs0)"
    using rows_in_range_shift [OF rng, of True] by (simp only: sh)
  have len: "2 \<le> length (row_ptrs 0 rs)" using ne by (cases rs) auto
  have p1: "0 # butlast (row_ptrs 0 rs) = row_ptrs 0 ([] # rs0)"
    using ne by (simp add: butlast_row_ptrs rs0_def)
  have lastp: "last (row_ptrs 0 rs) = int (length (concat rs0)) + int (length r)"
    by (simp add: last_row_ptrs rs)
  have plen: "length (row_ptrs 0 rs) - 2 = length rs0" by (simp add: rs)
  have "row_ptrs 0 rs ! length rs0 = int (length (concat (take (length rs0) rs)))"
    by (simp add: row_ptrs_nth rs)
  then have prevp: "row_ptrs 0 rs ! (length (row_ptrs 0 rs) - 2) = int (length (concat rs0))"
    by (simp only: plen) (simp add: rs)
  have cond: "(last (row_ptrs 0 rs) \<noteq> row_ptrs 0 rs ! (length (row_ptrs 0 rs) - 2)) = (r \<noteq> [])"
    by (simp only: lastp prevp) simp
  have nr: "length rs = length ([] # rs0)" by (simp add: rs)
  have unf: "csr_shift (of_rows k rs) True
     = (if r \<noteq> [] then
        (if map fst (concat rs) = [] \<or> map snd (concat rs) = [] then Inl IndexError
         else check_format \<lparr>nrows = length ([] # rs0), ncols = k, indptr = row_ptrs 0 ([] # rs0),
                indices = butlast (map fst (concat rs)), data = butlast (map snd (concat rs))\<rparr>)
      else check_format \<lparr>nrows = length ([] # rs0), ncols = k, indptr = row_ptrs 0 ([] # rs0),
                indices = map fst (concat rs), data = map snd (concat rs)\<rparr>)"
    unfolding of_rows_def by (simp only: csr_shift_down_unfold [OF len] cond p1 nr)
  show ?thesis
  proof (cases "r = []")
    case True
    have i: "map fst (concat rs) = map fst (concat ([] # rs0)) @ []"
      and d: "map snd (concat rs) = map snd (concat ([] # rs0)) @ []"
      using True by (simp_all add: rs)
    have "csr_shift (of_rows k rs) True
          = check_format \<lparr>nrows = length ([] # rs0), ncols = k, indptr = row_ptrs 0 ([] # rs0),
              indices = map fst (concat ([] # rs0)) @ [], data = map snd (concat ([] # rs0)) @ []\<rparr>"
      using True by (simp only: unf i [symmetric] d [symmetric]) simp
    also have "\<dots> = Inr (of_rows k ([] # rs0))"
      by (simp only: check_format_rows [OF rng']) simp
    finally show ?thesis by (simp only: sh)
  next
    case False
    have b1: "butlast (map fst (concat rs)) = map fst (concat ([] # rs0)) @ butlast (map fst r)"
      using False by (simp add: rs butlast_append)
    have b2: "butlast (map snd (concat rs)) = map snd (concat ([] # rs0)) @ butlast (map snd r)"
      using False by (simp add: rs butlast_append)
    have ne2: "map fst (concat rs) \<noteq> []" "map snd (concat rs) \<noteq> []"
      using False by (simp_all add: rs)
    have "csr_shift (of_rows k rs) True
          = check_format \<lparr>nrows = length ([] # rs0), ncols = k, indptr = row_ptrs 0 ([] # rs0),
              indices = map fst (concat ([] # rs0)) @ butlast (map fst r),
              data = map snd (concat ([] # rs0)) @ butlast (map snd r)\<rparr>"
      using False ne2 by (simp only: unf b1 [symmetric] b2 [symmetric]) simp
    also have "\<dots> = Inr (of_rows k ([] # rs0))"
      by (simp only: check_format_rows [OF rng']) simp
    finally show ?thesis by (simp only: sh)
  qed
qed

lemma row_ptrs_hd_tl: "row_ptrs a rs = a # tl (row_ptrs a rs)"
  by (cases rs) auto

lemma csr_shift_up_of_rows:
  assumes ne: "rs \<noteq> []" and rng: "rows_in_range k rs"
  shows "csr_shift (of_rows k rs) False = Inr (of_rows k (shift_rows False rs))"
proof -
  obtain r rs' where rs: "rs = r # rs'" using ne by (cases rs) auto
  let ?n = "int (length r)"
  let ?t = "rs' @ [[]]"
  have sh: "shift_rows False rs = ?t" by (simp add: shift_rows_def rs)
  have rng': "rows_in_range k ?t"
    using rows_in_range_shift [OF rng, of False] by (simp only: sh)
  have p: "row_ptrs 0 rs = 0 # row_ptrs ?n rs'" by (simp add: rs)
  have p1: "row_ptrs 0 rs ! 1 = ?n" by (simp add: p)
  have "map (\<lambda>x. x - ?n) (drop 2 (row_ptrs 0 rs)) = tl (map (\<lambda>x. x - ?n) (row_ptrs ?n rs'))"
    by (simp add: p drop_Suc map_tl)
  also have "\<dots> = tl (row_ptrs 0 rs')" by (simp add: map_minus_row_ptrs)
  finally have q: "0 # map (\<lambda>x. x - ?n) (drop 2 (row_ptrs 0 rs)) = row_ptrs 0 rs'"
    using row_ptrs_hd_tl [of 0 rs'] by simp
  have q2: "row_ptrs 0 rs' @ [last (row_ptrs 0 rs')] = row_ptrs 0 ?t"
    by (simp add: row_ptrs_append last_row_ptrs)
  have len: "2 \<le> length (row_ptrs 0 rs)" by (simp add: rs)
  have d1: "py_drop ?n (map fst (concat rs)) = map fst (concat ?t) @ []"
    and d2: "py_drop ?n (map snd (concat rs)) = map snd (concat ?t) @ []"
    by (simp_all add: py_drop_def rs)
  have e1: "?n = 0 \<Longrightarrow> map fst (concat rs) = map fst (concat ?t) @ []"
    and e2: "?n = 0 \<Longrightarrow> map snd (concat rs) = map snd (concat ?t) @ []"
    by (simp_all add: rs)
  have nr: "length rs = length ?t" by (simp add: rs)
  let ?y = "\<lparr>nrows = length ?t, ncols = k, indptr = row_ptrs 0 ?t,
            indices = map fst (concat ?t) @ [], data = map snd (concat ?t) @ []\<rparr>"
  have unf: "csr_shift (of_rows k rs) False
     = (if ?n \<noteq> 0 then
        check_format \<lparr>nrows = length ?t, ncols = k, indptr = row_ptrs 0 ?t,
           indices = py_drop ?n (map fst (concat rs)), data = py_drop ?n (map snd (concat rs))\<rparr>
      else
        check_format \<lparr>nrows = length ?t, ncols = k, indptr = row_ptrs 0 ?t,
           indices = map fst (concat rs), data = map snd (concat rs)\<rparr>)"
    unfolding of_rows_def by (simp only: csr_shift_up_unfold [OF len] p1 q q2 nr)
  have "csr_shift (of_rows k rs) False = check_format ?y"
  proof (cases "?n = 0")
    case True
    have "csr_shift (of_rows k rs) False
          = check_format \<lparr>nrows = length ?t, ncols = k, indptr = row_ptrs 0 ?t,
              indices = map fst (concat rs), data = map snd (concat rs)\<rparr>"
      unfolding unf by (rule if_not_P) (simp add: True)
    then show ?thesis by (simp only: e1 [OF True] e2 [OF True])
  next
    case False
    have "csr_shift (of_rows k rs) False
          = check_format \<lparr>nrows = length ?t, ncols = k, indptr = row_ptrs 0 ?t,
           indices = py_drop ?n (map fst (concat rs)), data = py_drop ?n (map snd (concat rs))\<rparr>"
      unfolding unf by (rule if_P) (rule False)
    then show ?thesis by (simp only: d1 d2)
  qed
  also have "\<dots> = Inr (of_rows k ?t)"
    by (simp only: check_format_rows [OF rng']) simp
  finally show ?thesis by (simp only: sh)
qed

lemma csr_shift_of_rows:
  "rs \<noteq> [] \<Longrightarrow> rows_in_range k rs \<Longrightarrow>
   csr_shift (of_rows k rs) down = Inr (of_rows k (shift_rows down rs))"
  by (cases down) (simp_all add: csr_shift_down_of_rows csr_shift_up_of_rows)

lemma csr_shift_no_rows: "csr_shift (of_rows k []) down = Inl IndexError"
  by (simp add: csr_shift_def of_rows_def Let_def)

subsection \<open>A well-formed matrix is the matrix of its rows\<close>

lemma last_nth_Suc: "length p = Suc n \<Longrightarrow> last p = p ! n"
  by (cases p rule: rev_cases) (auto simp: nth_append)

lemma csr_wf_ptr_bounds:
  assumes "csr_wf m" and "j \<le> nrows m"
  shows "0 \<le> indptr m ! j" and "nat (indptr m ! j) \<le> length (indices m)"
proof -
  let ?p = "indptr m"
  have len: "length ?p = nrows m + 1" and z: "?p ! 0 = 0" and s: "sorted ?p"
    and l: "last ?p = int (length (indices m))"
    using assms(1) by (simp_all add: csr_wf_def)
  have "?p ! 0 \<le> ?p ! j" using s len assms(2) by (simp add: sorted_iff_nth_mono)
  then show "0 \<le> ?p ! j" using z by simp
  have "last ?p = ?p ! nrows m" using len by (simp add: last_nth_Suc)
  moreover have "?p ! j \<le> ?p ! nrows m" using s len assms(2) by (simp add: sorted_iff_nth_mono)
  ultimately show "nat (?p ! j) \<le> length (indices m)" using l by simp
qed

lemma csr_wf_ptr_mono:
  assumes "csr_wf m" and "j < nrows m"
  shows "nat (indptr m ! j) \<le> nat (indptr m ! Suc j)"
proof -
  have "sorted (indptr m)" "length (indptr m) = nrows m + 1"
    using assms(1) by (simp_all add: csr_wf_def)
  then have "indptr m ! j \<le> indptr m ! Suc j" using assms(2) by (simp add: sorted_iff_nth_mono)
  then show ?thesis by simp
qed

lemma concat_rows_prefix:
  assumes wf: "csr_wf m" and j: "j \<le> nrows m"
  shows "concat (map (csr_row m) [0..<j])
         = zip (take (nat (indptr m ! j)) (indices m)) (take (nat (indptr m ! j)) (data m))"
  using j
proof (induction j)
  case 0
  have "indptr m ! 0 = 0" using wf by (simp add: csr_wf_def)
  then show ?case by simp
next
  case (Suc j)
  let ?a = "nat (indptr m ! j)" and ?b = "nat (indptr m ! Suc j)"
  have ab: "?a \<le> ?b" using csr_wf_ptr_mono [OF wf] Suc.prems by simp
  have eq: "length (data m) = length (indices m)" using wf by (simp add: csr_wf_def)
  have split: "take ?b xs = take ?a xs @ take (?b - ?a) (drop ?a xs)" for xs :: "'a list"
    using take_add [of ?a "?b - ?a" xs] ab by simp
  have row: "csr_row m j = zip (take (?b - ?a) (drop ?a (indices m))) (take (?b - ?a) (drop ?a (data m)))"
    by (simp add: csr_row_def Let_def)
  have "concat (map (csr_row m) [0..<Suc j])
        = zip (take ?a (indices m)) (take ?a (data m))
          @ zip (take (?b - ?a) (drop ?a (indices m))) (take (?b - ?a) (drop ?a (data m)))"
    using Suc by (simp add: row)
  also have "\<dots> = zip (take ?a (indices m) @ take (?b - ?a) (drop ?a (indices m)))
                       (take ?a (data m) @ take (?b - ?a) (drop ?a (data m)))"
    by (rule zip_append [symmetric]) (simp add: eq)
  also have "\<dots> = zip (take ?b (indices m)) (take ?b (data m))"
    by (simp only: split [symmetric])
  finally show ?case .
qed

lemma concat_csr_rows:
  assumes wf: "csr_wf m"
  shows "concat (csr_rows m) = zip (indices m) (data m)"
proof -
  have len: "length (indptr m) = Suc (nrows m)" using wf by (simp add: csr_wf_def)
  have "last (indptr m) = int (length (indices m))" "length (data m) = length (indices m)"
    using wf by (simp_all add: csr_wf_def)
  with last_nth_Suc [OF len] have "nat (indptr m ! nrows m) = length (indices m)"
    "length (data m) = length (indices m)" by simp_all
  then show ?thesis
    using concat_rows_prefix [OF wf, of "nrows m"] by (simp add: csr_rows_def)
qed

lemma row_ptrs_csr_rows:
  assumes wf: "csr_wf m"
  shows "row_ptrs 0 (csr_rows m) = indptr m"
proof (rule nth_equalityI)
  show "length (row_ptrs 0 (csr_rows m)) = length (indptr m)"
    using wf by (simp add: csr_wf_def csr_rows_def)
next
  fix j assume "j < length (row_ptrs 0 (csr_rows m))"
  then have j: "j \<le> nrows m" by (simp add: csr_rows_def)
  have eq: "length (data m) = length (indices m)" using wf by (simp add: csr_wf_def)
  have "take j (csr_rows m) = map (csr_row m) [0..<j]"
    using j by (simp add: csr_rows_def take_map)
  then have "row_ptrs 0 (csr_rows m) ! j = int (length (concat (map (csr_row m) [0..<j])))"
    using j by (simp add: row_ptrs_nth csr_rows_def)
  also have "\<dots> = int (nat (indptr m ! j))"
    using csr_wf_ptr_bounds(2) [OF wf j] by (simp add: concat_rows_prefix [OF wf j] eq)
  also have "\<dots> = indptr m ! j" using csr_wf_ptr_bounds(1) [OF wf j] by simp
  finally show "row_ptrs 0 (csr_rows m) ! j = indptr m ! j" .
qed

lemma csr_wf_of_rows:
  assumes wf: "csr_wf m"
  shows "m = of_rows (ncols m) (csr_rows m)"
proof -
  have eq: "length (data m) = length (indices m)" using wf by (simp add: csr_wf_def)
  have "map fst (concat (csr_rows m)) = indices m" "map snd (concat (csr_rows m)) = data m"
    using eq by (simp_all add: concat_csr_rows [OF wf])
  moreover have "length (csr_rows m) = nrows m" by (simp add: csr_rows_def)
  ultimately show ?thesis
    by (simp add: of_rows_def row_ptrs_csr_rows [OF wf])
qed

lemma csr_wf_rows_in_range:
  assumes wf: "csr_wf m"
  shows "rows_in_range (ncols m) (csr_rows m)"
proof -
  have "list_all (\<lambda>j. j < ncols m) (indices m)" using wf by (simp add: csr_wf_def)
  moreover have "map fst (concat (csr_rows m)) = indices m"
    using wf by (simp add: concat_csr_rows [OF wf] csr_wf_def)
  ultimately have all: "\<forall>j \<in> set (map fst (concat (csr_rows m))). j < ncols m"
    by (simp add: list_all_iff)
  have "fst e < ncols m" if "r \<in> set (csr_rows m)" and "e \<in> set r" for r e
  proof -
    have "fst e \<in> set (map fst (concat (csr_rows m)))" using that by auto
    then show ?thesis using all by blast
  qed
  then show ?thesis by (simp add: rows_in_range_def list_all_iff)
qed

lemma csr_wf_rows_sorted: "csr_wf m \<Longrightarrow> list_all (\<lambda>r. sorted (map fst r)) (csr_rows m)"
  by (simp add: csr_wf_def)

lemma of_rows_wf:
  assumes "rows_in_range k rs" and "list_all (\<lambda>r. sorted (map fst r)) rs"
  shows "csr_wf (of_rows k rs)"
proof -
  have "list_all (\<lambda>j. j < k) (map fst (concat rs))"
    using assms(1) by (fastforce simp: rows_in_range_def list_all_iff)
  moreover have "csr_rows (of_rows k rs) = rs" by simp
  ultimately show ?thesis
    unfolding csr_wf_def using assms(2)
    by (simp add: of_rows_def sorted_row_ptrs last_row_ptrs)
qed

section \<open>The row shift\<close>

subsection \<open>One shift of a well-formed matrix\<close>

lemma getnnz_of_rows: "getnnz (of_rows k rs) = int (length (concat rs))"
  by (simp add: getnnz_def of_rows_def last_row_ptrs)

lemma data_of_rows: "data (of_rows k rs) = map snd (concat rs)"
  by (simp add: of_rows_def)

lemma csr_row_nth_rows: "i < nrows m \<Longrightarrow> csr_rows m ! i = csr_row m i"
  by (simp add: csr_rows_def)

lemma length_csr_rows [simp]: "length (csr_rows m) = nrows m"
  by (simp add: csr_rows_def)

lemma shift_rows_sorted:
  "list_all (\<lambda>r. sorted (map fst r)) rs \<Longrightarrow> list_all (\<lambda>r. sorted (map fst r)) (shift_rows down rs)"
  by (auto simp: shift_rows_def list_all_iff dest!: in_set_butlastD in_set_tl)

lemma shift_rows_down_nth:
  "rs \<noteq> [] \<Longrightarrow> i < length rs \<Longrightarrow> shift_rows True rs ! i = (if i = 0 then [] else rs ! (i - 1))"
  by (cases i) (simp_all add: shift_rows_def nth_butlast)

lemma shift_rows_up_nth:
  "rs \<noteq> [] \<Longrightarrow> i < length rs \<Longrightarrow>
   shift_rows False rs ! i = (if Suc i < length rs then rs ! Suc i else [])"
  by (cases rs) (auto simp: shift_rows_def nth_append nth_tl)

lemma concat_shift_rows_down: "rs \<noteq> [] \<Longrightarrow> concat rs = concat (shift_rows True rs) @ last rs"
proof -
  assume "rs \<noteq> []"
  then have "rs = butlast rs @ [last rs]" by simp
  then have "concat rs = concat (butlast rs) @ last rs" by (metis concat.simps concat_append append_Nil2)
  then show ?thesis by (simp add: shift_rows_def)
qed

lemma concat_shift_rows_up: "rs \<noteq> [] \<Longrightarrow> concat rs = hd rs @ concat (shift_rows False rs)"
  by (cases rs) (simp_all add: shift_rows_def)

lemma csr_shift_wf:
  assumes wf: "csr_wf m" and n: "0 < nrows m"
  shows "csr_shift m down = Inr (of_rows (ncols m) (shift_rows down (csr_rows m)))"
    and "csr_wf (of_rows (ncols m) (shift_rows down (csr_rows m)))"
proof -
  have ne: "csr_rows m \<noteq> []" using n by (auto simp: csr_rows_def)
  have "csr_shift (of_rows (ncols m) (csr_rows m)) down
        = Inr (of_rows (ncols m) (shift_rows down (csr_rows m)))"
    by (rule csr_shift_of_rows [OF ne csr_wf_rows_in_range [OF wf]])
  then show "csr_shift m down = Inr (of_rows (ncols m) (shift_rows down (csr_rows m)))"
    using csr_wf_of_rows [OF wf] by simp
  show "csr_wf (of_rows (ncols m) (shift_rows down (csr_rows m)))"
    by (intro of_rows_wf rows_in_range_shift shift_rows_sorted csr_wf_rows_in_range
        csr_wf_rows_sorted wf)
qed

text \<open>
  Claim C3. One shift of a well-formed matrix with at least one row returns a matrix of
  the same shape that is well formed again (row boundaries non-decreasing, columns in
  range and ascending in each row). Its number of stored entries is the input's minus
  the entry count of the boundary row that fell off (the last row when shifting down,
  "earlier"; the first row when shifting up, "later"), and likewise for the sum of the
  stored values. Nothing wraps around: the row at the other end (the first when shifting
  down, the last when shifting up) is empty, and every other row is the row next to it
  in the input.
\<close>

theorem csr_shift_conservation:
  assumes wf: "csr_wf m" and n: "0 < nrows m"
  shows "\<exists>y. csr_shift m down = Inr y \<and> csr_wf y \<and> nrows y = nrows m \<and> ncols y = ncols m \<and>
    getnnz y = getnnz m - int (length (csr_row m (if down then nrows m - 1 else 0))) \<and>
    sum_list (data y) = sum_list (data m) - sum_list (map snd (csr_row m (if down then nrows m - 1 else 0))) \<and>
    csr_row y (if down then 0 else nrows m - 1) = [] \<and>
    (\<forall>i. Suc i < nrows m \<longrightarrow>
       (if down then csr_row y (Suc i) = csr_row m i else csr_row y i = csr_row m (Suc i)))"
proof -
  let ?rs = "csr_rows m" and ?k = "ncols m"
  let ?y = "of_rows ?k (shift_rows down ?rs)"
  have ne: "?rs \<noteq> []" using n by (auto simp: csr_rows_def)
  have m: "m = of_rows ?k ?rs" by (rule csr_wf_of_rows [OF wf])
  have nnz: "getnnz m = int (length (concat ?rs))" and dat: "data m = map snd (concat ?rs)"
    using getnnz_of_rows [of ?k ?rs] data_of_rows [of ?k ?rs] m by simp_all
  have lastr: "last ?rs = csr_row m (nrows m - 1)"
    using ne n by (simp add: last_conv_nth csr_row_nth_rows)
  have hdr: "hd ?rs = csr_row m 0"
    using ne n by (simp add: hd_conv_nth csr_row_nth_rows)
  have cnt: "getnnz ?y = getnnz m - int (length (csr_row m (if down then nrows m - 1 else 0)))"
  proof (cases down)
    case True
    then show ?thesis
      using concat_shift_rows_down [OF ne] by (simp add: getnnz_of_rows nnz lastr)
  next
    case False
    then show ?thesis
      using concat_shift_rows_up [OF ne] by (simp add: getnnz_of_rows nnz hdr)
  qed
  have tot: "sum_list (data ?y)
             = sum_list (data m) - sum_list (map snd (csr_row m (if down then nrows m - 1 else 0)))"
  proof (cases down)
    case True
    then show ?thesis
      using concat_shift_rows_down [OF ne] by (simp add: data_of_rows dat lastr)
  next
    case False
    then show ?thesis
      using concat_shift_rows_up [OF ne] by (simp add: data_of_rows dat hdr)
  qed
  have vac: "csr_row ?y (if down then 0 else nrows m - 1) = []"
    using ne n by (simp add: csr_row_of_rows shift_rows_down_nth shift_rows_up_nth)
  have rows: "if down then csr_row ?y (Suc i) = csr_row m i else csr_row ?y i = csr_row m (Suc i)"
    if "Suc i < nrows m" for i
    using ne that
    by (simp add: csr_row_of_rows shift_rows_down_nth shift_rows_up_nth csr_row_nth_rows)
  have "nrows ?y = nrows m" "ncols ?y = ncols m" using ne by simp_all
  then show ?thesis
    using csr_shift_wf [OF wf n, of down] cnt tot vac rows by blast
qed

theorem csr_shift_conservation_witness:
  "csr_wf \<lparr>nrows = 2, ncols = 3, indptr = [0, 1, 3], indices = [0, 0, 2], data = [1, 1, 1]\<rparr> \<and>
   (\<exists>y. csr_shift \<lparr>nrows = 2, ncols = 3, indptr = [0, 1, 3], indices = [0, 0, 2], data = [1, 1, 1]\<rparr> True
          = Inr y \<and> csr_wf y \<and> getnnz y = 1 \<and> csr_row y 0 = [])"
proof -
  let ?m = "\<lparr>nrows = 2, ncols = 3, indptr = [0, 1, 3], indices = [0, 0, 2], data = [1, 1, 1]\<rparr>"
  have wf: "csr_wf ?m" by code_simp
  have n: "0 < nrows ?m" by simp
  have r: "int (length (csr_row ?m (nrows ?m - 1))) = 2" by code_simp
  have g: "getnnz ?m = 3" by code_simp
  from csr_shift_conservation [OF wf n, of True] r g
  have "\<exists>y. csr_shift ?m True = Inr y \<and> csr_wf y \<and> getnnz y = 1 \<and> csr_row y 0 = []"
    by auto
  with wf show ?thesis by simp
qed

subsection \<open>A shift and the opposite shift\<close>

text \<open>
  Claim C5. A shift followed by the opposite shift returns a matrix that agrees with the
  input on every row but the boundary row that fell off in the first shift (the last
  row for down-then-up, the first row for up-then-down); that row is empty in the
  result, so the round trip is not the identity.
\<close>

theorem csr_shift_round_trip:
  assumes wf: "csr_wf m" and n: "0 < nrows m"
  shows "\<exists>y z. csr_shift m down = Inr y \<and> csr_shift y (\<not> down) = Inr z \<and>
    nrows z = nrows m \<and> ncols z = ncols m \<and>
    csr_row z (if down then nrows m - 1 else 0) = [] \<and>
    (\<forall>i < nrows m. i \<noteq> (if down then nrows m - 1 else 0) \<longrightarrow> csr_row z i = csr_row m i)"
proof -
  let ?rs = "csr_rows m" and ?k = "ncols m"
  let ?y = "of_rows ?k (shift_rows down ?rs)"
  let ?z = "of_rows ?k (shift_rows (\<not> down) (shift_rows down ?rs))"
  have ne: "?rs \<noteq> []" using n by (auto simp: csr_rows_def)
  have y: "csr_shift m down = Inr ?y" by (rule csr_shift_wf(1) [OF wf n])
  have "rows_in_range ?k (shift_rows down ?rs)"
    by (intro rows_in_range_shift csr_wf_rows_in_range wf)
  then have z: "csr_shift ?y (\<not> down) = Inr ?z"
    by (intro csr_shift_of_rows) simp_all
  have len: "length (shift_rows down ?rs) = nrows m" using ne by simp
  have vac: "csr_row ?z (if down then nrows m - 1 else 0) = []"
    using ne n len
    by (simp add: csr_row_of_rows shift_rows_down_nth shift_rows_up_nth)
  have rows: "csr_row ?z i = csr_row m i"
    if "i < nrows m" and "i \<noteq> (if down then nrows m - 1 else 0)" for i
  proof (cases down)
    case True
    then have "Suc i < nrows m" using that by simp
    then show ?thesis
      using True ne len
      by (simp add: csr_row_of_rows shift_rows_down_nth shift_rows_up_nth csr_row_nth_rows)
  next
    case False
    then have "0 < i" using that by simp
    then show ?thesis
      using False ne len that(1)
      by (simp add: csr_row_of_rows shift_rows_down_nth shift_rows_up_nth csr_row_nth_rows)
  qed
  have "nrows ?z = nrows m" "ncols ?z = ncols m" using ne by simp_all
  then show ?thesis using y z vac rows by blast
qed

theorem csr_shift_round_trip_witness:
  "\<exists>y z. csr_shift \<lparr>nrows = 2, ncols = 3, indptr = [0, 1, 3], indices = [0, 0, 2], data = [1, 1, 1]\<rparr> True
            = Inr y \<and> csr_shift y False = Inr z \<and> csr_row z 1 = [] \<and> csr_row z 0 = [(0, 1)]"
proof -
  let ?m = "\<lparr>nrows = 2, ncols = 3, indptr = [0, 1, 3], indices = [0, 0, 2], data = [1, 1, 1]\<rparr>"
  have wf: "csr_wf ?m" by code_simp
  have n: "0 < nrows ?m" by simp
  have r: "csr_row ?m 0 = [(0, 1)]" by code_simp
  from csr_shift_round_trip [OF wf n, of True] obtain y z where
    "csr_shift ?m True = Inr y" "csr_shift y (\<not> True) = Inr z"
    "csr_row z (if True then nrows ?m - 1 else 0) = []"
    "\<forall>i < nrows ?m. i \<noteq> (if True then nrows ?m - 1 else 0) \<longrightarrow> csr_row z i = csr_row ?m i"
    by blast
  then have "csr_shift ?m True = Inr y \<and> csr_shift y False = Inr z \<and> csr_row z 1 = [] \<and>
             csr_row z 0 = [(0, 1)]"
    using r by simp
  then show ?thesis by blast
qed

section \<open>The accumulator\<close>

subsection \<open>Dense rows\<close>

lemma row_get_Nil [simp]: "row_get [] c = 0"
  by (simp add: row_get_def)

lemma row_get_Cons [simp]: "row_get (e # r) c = (if fst e = c then snd e else 0) + row_get r c"
  by (simp add: row_get_def)

lemma row_get_enumerate:
  "row_get (filter (\<lambda>e. snd e \<noteq> 0) (enumerate a d)) c
   = (if a \<le> c \<and> c < a + length d then d ! (c - a) else 0)"
proof (induction d arbitrary: a)
  case Nil
  then show ?case by simp
next
  case (Cons x xs)
  show ?case
  proof (cases "a = c")
    case True
    then show ?thesis by (simp add: Cons.IH)
  next
    case False
    then show ?thesis by (auto simp: Cons.IH nth_Cons' Suc_diff_le)
  qed
qed

lemma length_dense_row [simp]: "length (dense_row k r) = k"
  by (simp add: dense_row_def)

lemma dense_row_nth: "c < k \<Longrightarrow> dense_row k r ! c = row_get r c"
  by (simp add: dense_row_def)

lemma dense_sparse_row: "length d = k \<Longrightarrow> dense_row k (sparse_row d) = d"
  by (rule nth_equalityI) (simp_all add: dense_row_nth sparse_row_def row_get_enumerate)

lemma sparse_row_zeros [simp]: "sparse_row (replicate k 0) = []"
  by (auto simp: sparse_row_def filter_empty_conv enumerate_eq_zip dest!: set_zip_rightD)

lemma todense_of_rows: "todense (of_rows k rs) = map (dense_row k) rs"
  by (simp add: todense_def)

lemma todense_from_dense:
  "list_all (\<lambda>r. length r = k) d \<Longrightarrow> todense (from_dense k d) = d"
  by (simp add: from_dense_def todense_of_rows list_all_iff dense_sparse_row map_idI)

lemma nrows_from_dense [simp]: "nrows (from_dense k d) = length d"
  by (simp add: from_dense_def)

lemma ncols_from_dense [simp]: "ncols (from_dense k d) = k"
  by (simp add: from_dense_def)

lemma csr_zero_from_dense: "csr_zero n k = from_dense k (replicate n (replicate k 0))"
  by (simp add: from_dense_def csr_zero_of_rows)

lemma csr_get_from_dense:
  "i < length d \<Longrightarrow> c < length (d ! i) \<Longrightarrow> csr_get (from_dense k d) i c = d ! i ! c"
  by (simp add: csr_get_def from_dense_def csr_row_of_rows sparse_row_def row_get_enumerate)

subsection \<open>One round of the loop\<close>

lemma length_masked_dense [simp]: "length (masked_dense k s rs) = min (length s) (length rs)"
  by (simp add: masked_dense_def)

lemma masked_dense_rows: "list_all (\<lambda>r. length r = k) (masked_dense k s rs)"
  by (auto simp: masked_dense_def list_all_iff dest!: set_zip_rightD)

lemma masked_dense_nth:
  "i < length s \<Longrightarrow> i < length rs \<Longrightarrow> c < k \<Longrightarrow>
   masked_dense k s rs ! i ! c = s ! i * row_get (rs ! i) c"
  by (simp add: masked_dense_def dense_row_nth)

lemma mask_multiply_rows:
  "length s = length rs \<Longrightarrow> mask_multiply s (of_rows k rs) = Inr (from_dense k (masked_dense k s rs))"
  by (simp add: mask_multiply_def masked_dense_def todense_of_rows)

lemma add_rows_lengths:
  "list_all (\<lambda>r. length r = k) a \<Longrightarrow> list_all (\<lambda>r. length r = k) b \<Longrightarrow>
   list_all (\<lambda>r. length r = k) (map2 (map2 (+)) a b)"
proof -
  assume a: "list_all (\<lambda>r. length r = k) a" and b: "list_all (\<lambda>r. length r = k) b"
  have "length (map2 (+) x y) = k" if "(x, y) \<in> set (zip a b)" for x y
  proof -
    have "x \<in> set a" "y \<in> set b" using that by (auto dest: set_zip_leftD set_zip_rightD)
    then show ?thesis using a b by (simp add: list_all_iff)
  qed
  then show ?thesis by (auto simp: list_all_iff)
qed

lemma csr_add_dense:
  assumes "length a = length b"
    and "list_all (\<lambda>r. length r = k) a" and "list_all (\<lambda>r. length r = k) b"
  shows "csr_add (from_dense k a) (from_dense k b) = Inr (from_dense k (map2 (map2 (+)) a b))"
  using assms by (simp add: csr_add_def todense_from_dense)

lemma cum_steps_append:
  "cum_steps (xs @ ys) v ab acc sh
   = (case cum_steps xs v ab acc sh of Inl e \<Rightarrow> Inl e
      | Inr st \<Rightarrow> cum_steps ys v ab (fst st) (snd st))"
  by (induction xs arbitrary: acc sh) (auto simp: Let_def split: sum.splits)

lemma cum_steps_forced_append:
  "cum_steps_forced (xs @ ys) v ab acc sh
   = (case cum_steps_forced xs v ab acc sh of Inl e \<Rightarrow> Inl e
      | Inr st \<Rightarrow> cum_steps_forced ys v ab (fst st) (snd st))"
  by (induction xs arbitrary: acc sh) (auto simp: Let_def split: sum.splits)

lemma upto_Suc_append: "[1..int (Suc n)] = [1..int n] @ [int (Suc n)]"
  using upto_rec2 [of 1 "int (Suc n)"] by simp

lemma cum_step_rows:
  assumes "rs \<noteq> []" and "rows_in_range k rs" and "length v = length rs"
    and "length a = length rs" and "list_all (\<lambda>r. length r = k) a"
  shows "cum_steps [i] v ab (from_dense k a) (of_rows k rs)
         = Inr (from_dense k (map2 (map2 (+)) a
                  (masked_dense k (is_same_after_shift v (i * (if ab then 1 else - 1)))
                     (shift_rows ab rs))),
                of_rows k (shift_rows ab rs))"
proof -
  let ?s = "is_same_after_shift v (i * (if ab then 1 else - 1))"
  let ?rs' = "shift_rows ab rs"
  have sh: "csr_shift (of_rows k rs) ab = Inr (of_rows k ?rs')"
    by (rule csr_shift_of_rows [OF assms(1,2)])
  have len: "length ?s = length ?rs'" using assms(1,3) by simp
  have mm: "mask_multiply ?s (of_rows k ?rs') = Inr (from_dense k (masked_dense k ?s ?rs'))"
    by (rule mask_multiply_rows [OF len])
  have "length a = length (masked_dense k ?s ?rs')" using assms(1,3,4) by simp
  then have ad: "csr_add (from_dense k a) (from_dense k (masked_dense k ?s ?rs'))
        = Inr (from_dense k (map2 (map2 (+)) a (masked_dense k ?s ?rs')))"
    by (rule csr_add_dense [OF _ assms(5) masked_dense_rows])
  show ?thesis by (simp add: sh mm ad Let_def)
qed

subsection \<open>The loop\<close>

lemma shift_rows_pow_not_Nil: "rs \<noteq> [] \<Longrightarrow> (shift_rows ab ^^ n) rs \<noteq> []"
  by (induction n) simp_all

lemma shift_rows_pow_length [simp]: "rs \<noteq> [] \<Longrightarrow> length ((shift_rows ab ^^ n) rs) = length rs"
  by (induction n) (simp_all add: shift_rows_pow_not_Nil)

lemma shift_rows_pow_in_range:
  "rows_in_range k rs \<Longrightarrow> rows_in_range k ((shift_rows ab ^^ n) rs)"
  by (induction n) (simp_all add: rows_in_range_shift)

lemma acc_dense_length [simp]: "rs \<noteq> [] \<Longrightarrow> length v = length rs \<Longrightarrow> length (acc_dense k rs v ab n) = length rs"
  by (induction n) (simp_all add: shift_rows_pow_not_Nil)

lemma acc_dense_rows: "list_all (\<lambda>r. length r = k) (acc_dense k rs v ab n)"
proof (induction n)
  case 0
  then show ?case by (simp add: list_all_iff)
next
  case (Suc n)
  then show ?case
    by (simp only: acc_dense.simps add_rows_lengths masked_dense_rows)
qed

lemma cum_steps_rows:
  assumes ne: "rs \<noteq> []" and rng: "rows_in_range k rs" and len: "length v = length rs"
  shows "cum_steps [1..int n] v ab (csr_zero (length rs) k) (of_rows k rs)
         = Inr (from_dense k (acc_dense k rs v ab n), of_rows k ((shift_rows ab ^^ n) rs))"
proof (induction n)
  case 0
  then show ?case by (simp add: csr_zero_from_dense)
next
  case (Suc n)
  have step: "cum_steps [int (Suc n)] v ab (from_dense k (acc_dense k rs v ab n))
                (of_rows k ((shift_rows ab ^^ n) rs))
        = Inr (from_dense k (acc_dense k rs v ab (Suc n)),
               of_rows k ((shift_rows ab ^^ Suc n) rs))"
    using cum_step_rows [OF shift_rows_pow_not_Nil [OF ne] shift_rows_pow_in_range [OF rng],
        of v n ab "acc_dense k rs v ab n" "int (Suc n)"] ne len acc_dense_rows [of k rs v ab n]
    by simp
  show ?case
    by (simp only: upto_Suc_append cum_steps_append Suc.IH sum.case fst_conv snd_conv step)
qed

subsection \<open>The entries of the accumulator\<close>

lemma shift_down_pow_nth:
  "rs \<noteq> [] \<Longrightarrow> i < length rs \<Longrightarrow>
   (shift_rows True ^^ n) rs ! i = (if n \<le> i then rs ! (i - n) else [])"
proof (induction n arbitrary: i)
  case 0
  then show ?case by simp
next
  case (Suc n)
  show ?case
  proof (cases i)
    case 0
    then show ?thesis
      using Suc.prems by (simp add: shift_rows_down_nth shift_rows_pow_not_Nil)
  next
    case (Suc j)
    then have "j < length rs" using Suc.prems by simp
    then show ?thesis
      using Suc.prems Suc.IH [of j] \<open>i = Suc j\<close>
      by (simp add: shift_rows_down_nth shift_rows_pow_not_Nil)
  qed
qed

lemma shift_up_pow_nth:
  "rs \<noteq> [] \<Longrightarrow> i < length rs \<Longrightarrow>
   (shift_rows False ^^ n) rs ! i = (if i + n < length rs then rs ! (i + n) else [])"
proof (induction n arbitrary: i)
  case 0
  then show ?case by simp
next
  case (Suc n)
  show ?case
  proof (cases "Suc i < length rs")
    case True
    then show ?thesis
      using Suc.prems Suc.IH [of "Suc i"]
      by (simp add: shift_rows_up_nth shift_rows_pow_not_Nil)
  next
    case False
    then show ?thesis
      using Suc.prems by (simp add: shift_rows_up_nth shift_rows_pow_not_Nil)
  qed
qed

lemma roll_index_earlier:
  assumes "d \<le> i" and "i < n"
  shows "nat ((int i - int d) mod int n) = i - d"
proof -
  have "int i - int d = int (i - d)" using assms by simp
  moreover have "int (i - d) mod int n = int (i - d)" using assms by simp
  ultimately have "nat ((int i - int d) mod int n) = nat (int (i - d))" by (simp only:)
  then show ?thesis by (simp only: nat_int)
qed

lemma roll_index_later:
  assumes "i + d < n"
  shows "nat ((int i - - int d) mod int n) = i + d"
proof -
  have "int i - - int d = int (i + d)" by simp
  moreover have "int (i + d) mod int n = int (i + d)" using assms by simp
  ultimately have "nat ((int i - - int d) mod int n) = nat (int (i + d))" by (simp only:)
  then show ?thesis by (simp only: nat_int)
qed

lemma masked_term:
  assumes ne: "rs \<noteq> []" and len: "length v = length rs" and i: "i < length rs"
  shows "is_same_after_shift v (int d * (if ab then 1 else - 1)) ! i
           * row_get ((shift_rows ab ^^ d) rs ! i) c
         = (if ab then (if d \<le> i \<and> v ! (i - d) = v ! i then row_get (rs ! (i - d)) c else 0)
            else (if i + d < length rs \<and> v ! (i + d) = v ! i then row_get (rs ! (i + d)) c else 0))"
proof (cases ab)
  case True
  show ?thesis
  proof (cases "d \<le> i")
    case le: True
    have "is_same_after_shift v (int d) ! i = (if v ! i = v ! (i - d) then 1 else 0)"
      using i len roll_index_earlier [OF le, of "length v"] by (simp add: is_same_after_shift_nth)
    then show ?thesis
      using True le ne i by (auto simp: shift_down_pow_nth)
  next
    case False
    then show ?thesis using True ne i by (simp add: shift_down_pow_nth)
  qed
next
  case False
  show ?thesis
  proof (cases "i + d < length rs")
    case lt: True
    have "is_same_after_shift v (- int d) ! i = (if v ! i = v ! (i + d) then 1 else 0)"
      using i len roll_index_later [of i d "length v"] lt by (simp add: is_same_after_shift_nth)
    then show ?thesis
      using False lt ne i by (auto simp: shift_up_pow_nth)
  next
    case ge: False
    then show ?thesis using False ne i by (simp add: shift_up_pow_nth)
  qed
qed

lemma map2_plus_nth:
  "i < length a \<Longrightarrow> i < length b \<Longrightarrow> c < length (a ! i) \<Longrightarrow> c < length (b ! i) \<Longrightarrow>
   map2 (map2 (+)) a b ! i ! c = a ! i ! c + b ! i ! (c::nat)"
  by simp

lemma acc_dense_row_length:
  "rs \<noteq> [] \<Longrightarrow> length v = length rs \<Longrightarrow> i < length rs \<Longrightarrow> length (acc_dense k rs v ab n ! i) = k"
  using acc_dense_rows [of k rs v ab n] by (simp add: list_all_iff)

lemma masked_dense_row_length:
  "i < length s \<Longrightarrow> i < length rs \<Longrightarrow> length (masked_dense k s rs ! i) = k"
  using masked_dense_rows [of k s rs] by (simp add: list_all_iff)

lemma acc_dense_nth:
  assumes ne: "rs \<noteq> []" and len: "length v = length rs" and i: "i < length rs" and c: "c < k"
  shows "acc_dense k rs v ab n ! i ! c = window_sum rs v ab n i c"
proof (induction n)
  case 0
  then show ?case using i c by (simp add: window_sum_def)
next
  case (Suc n)
  let ?s = "is_same_after_shift v (int (Suc n) * (if ab then 1 else - 1))"
  let ?rs' = "(shift_rows ab ^^ Suc n) rs"
  have l: "length ?rs' = length rs" by (rule shift_rows_pow_length [OF ne])
  have ls: "length ?s = length rs" using len by simp
  have "acc_dense k rs v ab (Suc n) ! i ! c
        = acc_dense k rs v ab n ! i ! c + masked_dense k ?s ?rs' ! i ! c"
    unfolding acc_dense.simps
    by (rule map2_plus_nth)
       (simp_all only: acc_dense_length [OF ne len] length_masked_dense l ls min.idem i
          acc_dense_row_length [OF ne len i] masked_dense_row_length c)
  also have "masked_dense k ?s ?rs' ! i ! c = ?s ! i * row_get (?rs' ! i) c"
    by (rule masked_dense_nth) (simp_all only: l ls i c)
  also have "\<dots> = (if ab then (if Suc n \<le> i \<and> v ! (i - Suc n) = v ! i then row_get (rs ! (i - Suc n)) c else 0)
            else (if i + Suc n < length rs \<and> v ! (i + Suc n) = v ! i then row_get (rs ! (i + Suc n)) c else 0))"
    by (rule masked_term [OF ne len i])
  finally show ?case
    by (simp add: Suc.IH window_sum_def)
qed

lemma upto_nat: "[1..W] = [1..int (nat W)]"
  by (cases "0 \<le> W") simp_all

lemma csr_cum_sum_rows:
  assumes wf: "csr_wf m" and n: "0 < nrows m" and len: "length v = nrows m"
  shows "csr_cum_sum m v W ab
         = Inr (from_dense (ncols m) (acc_dense (ncols m) (csr_rows m) v ab (nat W)))"
proof -
  let ?rs = "csr_rows m" and ?k = "ncols m"
  have ne: "?rs \<noteq> []" using n by (auto simp: csr_rows_def)
  have m: "of_rows ?k ?rs = m" using csr_wf_of_rows [OF wf] by simp
  have "cum_steps [1..int (nat W)] v ab (csr_zero (length ?rs) ?k) (of_rows ?k ?rs)
        = Inr (from_dense ?k (acc_dense ?k ?rs v ab (nat W)), of_rows ?k ((shift_rows ab ^^ nat W) ?rs))"
    by (rule cum_steps_rows [OF ne csr_wf_rows_in_range [OF wf]]) (simp add: len)
  then show ?thesis
    unfolding csr_cum_sum_def upto_nat [of W] by (simp add: m)
qed

lemma csr_cum_sum_entries:
  assumes wf: "csr_wf m" and len: "length v = nrows m" and i: "i < nrows m" and c: "c < ncols m"
  shows "\<exists>A. csr_cum_sum m v W ab = Inr A \<and> nrows A = nrows m \<and> ncols A = ncols m \<and>
             csr_get A i c = window_sum (csr_rows m) v ab (nat W) i c"
proof -
  let ?rs = "csr_rows m" and ?k = "ncols m"
  let ?d = "acc_dense ?k ?rs v ab (nat W)"
  have n: "0 < nrows m" using i by simp
  have ne: "?rs \<noteq> []" using n by (auto simp: csr_rows_def)
  have l: "length v = length ?rs" using len by simp
  have i': "i < length ?rs" using i by simp
  have dl: "length ?d = nrows m" using acc_dense_length [OF ne l] by simp
  have rl: "length (?d ! i) = ?k" by (rule acc_dense_row_length [OF ne l i'])
  have "csr_get (from_dense ?k ?d) i c = ?d ! i ! c"
    by (rule csr_get_from_dense) (simp_all only: dl rl i c)
  also have "\<dots> = window_sum ?rs v ab (nat W) i c"
    by (rule acc_dense_nth [OF ne l i' c])
  finally show ?thesis
    using csr_cum_sum_rows [OF wf n len, of W ab] dl by simp
qed

section \<open>Properties of the windowed counts\<close>

subsection \<open>No leakage across groups\<close>

lemma contiguous_runsD:
  assumes "contiguous_runs v" and "i \<le> j" and "j < k" and "k < length v" and "v ! i = v ! k"
  shows "v ! j = v ! k"
proof -
  have "k \<in> set [0..<length v]" "i \<in> set [0..<k]" "j \<in> set [i..<k]"
    using assms by simp_all
  then show ?thesis
    using assms(1,5) unfolding contiguous_runs_def list_all_iff by blast
qed

lemma sum_list_all_zero: "(\<And>x. x \<in> set xs \<Longrightarrow> f x = (0::int)) \<Longrightarrow> (\<Sum>x\<leftarrow>xs. f x) = 0"
  by (induction xs) simp_all

lemma window_sum_first_position:
  assumes run: "contiguous_runs v" and len: "length v = length rs" and i: "i < length rs"
    and first: "i = 0 \<or> v ! (i - 1) \<noteq> v ! i"
  shows "window_sum rs v True n i c = 0"
  unfolding window_sum_def
proof (rule sum_list_all_zero)
  fix d assume "d \<in> set [1..<Suc n]"
  then have d: "1 \<le> d" by auto
  have "v ! (i - d) \<noteq> v ! i" if "d \<le> i"
  proof
    assume eq: "v ! (i - d) = v ! i"
    have "i - d \<le> i - 1" "i - 1 < i" "i < length v" using d that i len by simp_all
    from contiguous_runsD [OF run this eq] first d that show False by simp
  qed
  then show "(if True then (if d \<le> i \<and> v ! (i - d) = v ! i then row_get (rs ! (i - d)) c else 0)
        else (if i + d < length rs \<and> v ! (i + d) = v ! i then row_get (rs ! (i + d)) c else 0)) = 0"
    by auto
qed

lemma window_sum_last_position:
  assumes run: "contiguous_runs v" and len: "length v = length rs" and i: "i < length rs"
    and last: "Suc i = length rs \<or> v ! Suc i \<noteq> v ! i"
  shows "window_sum rs v False n i c = 0"
  unfolding window_sum_def
proof (rule sum_list_all_zero)
  fix d assume "d \<in> set [1..<Suc n]"
  then have d: "1 \<le> d" by auto
  have "v ! (i + d) \<noteq> v ! i" if "i + d < length rs"
  proof
    assume eq: "v ! (i + d) = v ! i"
    have "i \<le> Suc i" "Suc i < i + d \<or> Suc i = i + d" "i + d < length v" using d that len by auto
    then have "v ! Suc i = v ! (i + d)"
      using contiguous_runsD [OF run, of i "Suc i" "i + d"] eq by auto
    with eq last that d show False by auto
  qed
  then show "(if False then (if d \<le> i \<and> v ! (i - d) = v ! i then row_get (rs ! (i - d)) c else 0)
        else (if i + d < length rs \<and> v ! (i + d) = v ! i then row_get (rs ! (i + d)) c else 0)) = 0"
    by auto
qed

text \<open>
  Claim C2. For a well-formed matrix, a group vector of the same length whose groups are
  contiguous runs, every window size and every column: the "earlier" accumulation is
  0 at the first position of a group (position 0, or a position whose predecessor has
  another group), whatever precedes it; the "later" accumulation is 0 at the last
  position of a group.
\<close>

theorem no_cross_group_leakage:
  assumes wf: "csr_wf m" and len: "length v = nrows m" and run: "contiguous_runs v"
    and i: "i < nrows m" and c: "c < ncols m"
  shows "\<exists>A B. csr_cum_sum m v W True = Inr A \<and> csr_cum_sum m v W False = Inr B \<and>
           (i = 0 \<or> v ! (i - 1) \<noteq> v ! i \<longrightarrow> csr_get A i c = 0) \<and>
           (Suc i = nrows m \<or> v ! Suc i \<noteq> v ! i \<longrightarrow> csr_get B i c = 0)"
proof -
  obtain A where A: "csr_cum_sum m v W True = Inr A"
    "csr_get A i c = window_sum (csr_rows m) v True (nat W) i c"
    using csr_cum_sum_entries [OF wf len i c, of W True] by blast
  obtain B where B: "csr_cum_sum m v W False = Inr B"
    "csr_get B i c = window_sum (csr_rows m) v False (nat W) i c"
    using csr_cum_sum_entries [OF wf len i c, of W False] by blast
  have l: "length v = length (csr_rows m)" and i': "i < length (csr_rows m)"
    using len i by simp_all
  have "csr_get A i c = 0" if "i = 0 \<or> v ! (i - 1) \<noteq> v ! i"
    using window_sum_first_position [OF run l i' that] A(2) by simp
  moreover have "csr_get B i c = 0" if "Suc i = nrows m \<or> v ! Suc i \<noteq> v ! i"
    using window_sum_last_position [OF run l i', of "nat W" c] that B(2) by simp
  ultimately show ?thesis using A(1) B(1) by blast
qed

theorem no_cross_group_leakage_witness:
  "\<exists>A B. csr_cum_sum (one_hot_encode [''a'', ''b''] [''a'', ''b'', ''a'', ''a'', ''b'', ''a''])
            [1::nat, 1, 1, 2, 2, 2] 5 True = Inr A \<and>
         csr_cum_sum (one_hot_encode [''a'', ''b''] [''a'', ''b'', ''a'', ''a'', ''b'', ''a''])
            [1::nat, 1, 1, 2, 2, 2] 5 False = Inr B \<and>
         csr_get A 3 0 = 0 \<and> csr_get B 2 0 = 0"
proof -
  let ?m = "one_hot_encode [''a'', ''b''] [''a'', ''b'', ''a'', ''a'', ''b'', ''a'']"
  let ?v = "[1::nat, 1, 1, 2, 2, 2]"
  have wf: "csr_wf ?m" by code_simp
  have len: "length ?v = nrows ?m" by code_simp
  have run: "contiguous_runs ?v" by code_simp
  have i: "3 < nrows ?m" "2 < nrows ?m" and c: "0 < ncols ?m" by code_simp+
  have first: "(3::nat) = 0 \<or> ?v ! (3 - 1) \<noteq> ?v ! 3" by simp
  have last: "Suc 2 = nrows ?m \<or> ?v ! Suc 2 \<noteq> ?v ! 2" by simp
  from no_cross_group_leakage [OF wf len run i(1) c, of 5] first
  obtain A B where A: "csr_cum_sum ?m ?v 5 True = Inr A" "csr_cum_sum ?m ?v 5 False = Inr B"
    "csr_get A 3 0 = 0" by blast
  from no_cross_group_leakage [OF wf len run i(2) c, of 5] last
  obtain A' B' where B: "csr_cum_sum ?m ?v 5 True = Inr A'" "csr_cum_sum ?m ?v 5 False = Inr B'"
    "csr_get B' 2 0 = 0" by blast
  from A B have "B' = B" by simp
  with A B show ?thesis by blast
qed

subsection \<open>Monotone in the window size\<close>

lemma row_get_nonneg: "list_all (\<lambda>e. 0 \<le> snd e) r \<Longrightarrow> 0 \<le> row_get r c"
  by (induction r) simp_all

lemma csr_rows_nonneg:
  assumes wf: "csr_wf m" and nn: "list_all (\<lambda>x. 0 \<le> x) (data m)" and j: "j < nrows m"
  shows "list_all (\<lambda>e. 0 \<le> snd e) (csr_rows m ! j)"
proof -
  have "data m = map snd (concat (csr_rows m))"
    using csr_wf_of_rows [OF wf] data_of_rows [of "ncols m" "csr_rows m"] by simp
  then have "\<forall>e \<in> set (concat (csr_rows m)). 0 \<le> snd e"
    using nn by (simp add: list_all_iff)
  moreover have "csr_rows m ! j \<in> set (csr_rows m)" using j by (simp add: nth_mem)
  then have "set (csr_rows m ! j) \<subseteq> set (concat (csr_rows m))" by auto
  ultimately show ?thesis by (auto simp: list_all_iff)
qed

lemma sum_list_map_nonneg: "(\<And>x. 0 \<le> (f x :: int)) \<Longrightarrow> 0 \<le> (\<Sum>x\<leftarrow>xs. f x)"
  by (induction xs) simp_all

lemma window_sum_mono:
  assumes nn: "\<And>j. j < length rs \<Longrightarrow> list_all (\<lambda>e. 0 \<le> snd e) (rs ! j)"
    and i: "i < length rs" and le: "n \<le> n'"
  shows "window_sum rs v ab n i c \<le> window_sum rs v ab n' i c"
proof -
  let ?f = "\<lambda>d. if ab then (if d \<le> i \<and> v ! (i - d) = v ! i then row_get (rs ! (i - d)) c else 0)
        else (if i + d < length rs \<and> v ! (i + d) = v ! i then row_get (rs ! (i + d)) c else 0)"
  have f: "0 \<le> ?f d" for d
    using nn [of "i - d"] nn [of "i + d"] i by (auto intro!: row_get_nonneg)
  have "[1..<Suc n'] = [1..<Suc n] @ [Suc n..<Suc n']"
    using le upt_add_eq_append [of 1 "Suc n" "n' - n"] by simp
  then have "window_sum rs v ab n' i c = window_sum rs v ab n i c + (\<Sum>d\<leftarrow>[Suc n..<Suc n']. ?f d)"
    unfolding window_sum_def by simp
  moreover have "0 \<le> (\<Sum>d\<leftarrow>[Suc n..<Suc n']. ?f d)"
    by (rule sum_list_map_nonneg) (rule f)
  ultimately show ?thesis by simp
qed

lemma row_get_le_total: "list_all (\<lambda>e. 0 \<le> snd e) r \<Longrightarrow> row_get r c \<le> sum_list (map snd r)"
  by (induction r) auto

lemma sum_list_concat_rows:
  "sum_list (map snd (concat rs)) = (\<Sum>r\<leftarrow>rs. sum_list (map snd r))" for rs :: "(nat \<times> int) list list"
  by (induction rs) simp_all

lemma sum_rows_le_total:
  assumes nn: "\<And>j. j < length rs \<Longrightarrow> list_all (\<lambda>e. 0 \<le> snd e) (rs ! j)"
  shows "(\<Sum>j = 0..<length rs. row_get (rs ! j) c) \<le> sum_list (map snd (concat rs))"
proof -
  have "(\<Sum>j = 0..<length rs. row_get (rs ! j) c) \<le> (\<Sum>j = 0..<length rs. sum_list (map snd (rs ! j)))"
    by (rule sum_mono) (simp add: row_get_le_total nn)
  also have "\<dots> = sum_list (map (\<lambda>r. sum_list (map snd r)) rs)"
    by (simp add: sum_list_sum_nth)
  finally show ?thesis by (simp add: sum_list_concat_rows)
qed

lemma window_sum_bounds:
  assumes nn: "\<And>j. j < length rs \<Longrightarrow> list_all (\<lambda>e. 0 \<le> snd e) (rs ! j)"
    and i: "i < length rs"
  shows "0 \<le> window_sum rs v ab n i c"
    and "window_sum rs v ab n i c \<le> sum_list (map snd (concat rs))"
proof -
  let ?N = "length rs"
  let ?f = "\<lambda>j. row_get (rs ! j) c"
  let ?t = "\<lambda>d. if ab then (if d \<le> i \<and> v ! (i - d) = v ! i then ?f (i - d) else 0)
        else (if i + d < ?N \<and> v ! (i + d) = v ! i then ?f (i + d) else 0)"
  have f: "0 \<le> ?f j" if "j < ?N" for j using nn [OF that] by (rule row_get_nonneg)
  have t: "0 \<le> ?t d" for d using f [of "i - d"] f [of "i + d"] i by auto
  show "0 \<le> window_sum rs v ab n i c"
    unfolding window_sum_def by (rule sum_list_map_nonneg) (rule t)
  have ws: "window_sum rs v ab n i c = sum ?t {1..<Suc n}"
    unfolding window_sum_def by (simp add: interv_sum_list_conv_sum_set_nat)
  have "sum ?t {1..<Suc n} \<le> sum ?f {0..<?N}"
  proof (cases ab)
    case True
    let ?S = "{d \<in> {1..<Suc n}. d \<le> i}"
    have "sum ?t {1..<Suc n} \<le> (\<Sum>d \<in> {1..<Suc n}. if d \<le> i then ?f (i - d) else 0)"
      using True f i by (intro sum_mono) auto
    also have "\<dots> = sum (\<lambda>d. ?f (i - d)) ?S"
      by (rule sum.inter_filter [symmetric]) simp
    also have "\<dots> = sum ?f ((\<lambda>d. i - d) ` ?S)"
      by (rule sum.reindex [symmetric, unfolded o_def]) (auto simp: inj_on_def)
    also have "\<dots> \<le> sum ?f {0..<?N}"
      using i f by (intro sum_mono2) auto
    finally show ?thesis .
  next
    case False
    let ?S = "{d \<in> {1..<Suc n}. i + d < ?N}"
    have "sum ?t {1..<Suc n} \<le> (\<Sum>d \<in> {1..<Suc n}. if i + d < ?N then ?f (i + d) else 0)"
      using False f by (intro sum_mono) auto
    also have "\<dots> = sum (\<lambda>d. ?f (i + d)) ?S"
      by (rule sum.inter_filter [symmetric]) simp
    also have "\<dots> = sum ?f ((\<lambda>d. i + d) ` ?S)"
      by (rule sum.reindex [symmetric, unfolded o_def]) (auto simp: inj_on_def)
    also have "\<dots> \<le> sum ?f {0..<?N}"
      using f by (intro sum_mono2) auto
    finally show ?thesis .
  qed
  also have "\<dots> \<le> sum_list (map snd (concat rs))" by (rule sum_rows_le_total [OF nn])
  finally show "window_sum rs v ab n i c \<le> sum_list (map snd (concat rs))" by (simp only: ws)
qed

text \<open>
  Claim C8. Take a well-formed matrix whose stored values are non-negative and add up to
  less than \<open>2\<^sup>6\<^sup>3\<close> (an indicator or count matrix whose total fits \<^verbatim>\<open>np.int64\<close>), a group
  vector of the same length, a position, a column and either direction. Then the
  accumulated count does not decrease when the window grows: \<open>1 \<le> W \<le> W'\<close> gives a count
  for \<open>W'\<close> that is at least the count for \<open>W\<close>. Both counts lie between 0 and the total of
  the stored values, so no sum of the accumulation leaves the \<^verbatim>\<open>np.int64\<close> range.
\<close>

theorem window_size_monotone:
  assumes wf: "csr_wf m" and nn: "list_all (\<lambda>x. 0 \<le> x) (data m)"
    and total: "sum_list (data m) < 2 ^ 63" and len: "length v = nrows m"
    and i: "i < nrows m" and c: "c < ncols m" and W: "1 \<le> W" "W \<le> W'"
  shows "\<exists>A A'. csr_cum_sum m v W ab = Inr A \<and> csr_cum_sum m v W' ab = Inr A' \<and>
           0 \<le> csr_get A i c \<and> csr_get A i c \<le> csr_get A' i c \<and>
           csr_get A' i c \<le> sum_list (data m) \<and> csr_get A' i c < 2 ^ 63"
proof -
  obtain A where A: "csr_cum_sum m v W ab = Inr A"
    "csr_get A i c = window_sum (csr_rows m) v ab (nat W) i c"
    using csr_cum_sum_entries [OF wf len i c, of W ab] by blast
  obtain A' where A': "csr_cum_sum m v W' ab = Inr A'"
    "csr_get A' i c = window_sum (csr_rows m) v ab (nat W') i c"
    using csr_cum_sum_entries [OF wf len i c, of W' ab] by blast
  have rows: "list_all (\<lambda>e. 0 \<le> snd e) (csr_rows m ! j)" if "j < length (csr_rows m)" for j
    using csr_rows_nonneg [OF wf nn] that by simp
  have i': "i < length (csr_rows m)" using i by simp
  have dat: "data m = map snd (concat (csr_rows m))"
    using csr_wf_of_rows [OF wf] data_of_rows [of "ncols m" "csr_rows m"] by simp
  have mono: "window_sum (csr_rows m) v ab (nat W) i c \<le> window_sum (csr_rows m) v ab (nat W') i c"
  proof (rule window_sum_mono [OF rows i'])
    show "nat W \<le> nat W'" using W by linarith
  qed
  have lo: "0 \<le> window_sum (csr_rows m) v ab (nat W) i c"
    by (rule window_sum_bounds(1) [OF rows i'])
  have hi: "window_sum (csr_rows m) v ab (nat W') i c \<le> sum_list (data m)"
    unfolding dat by (rule window_sum_bounds(2) [OF rows i'])
  show ?thesis using A A' mono lo hi total by auto
qed

theorem window_size_monotone_witness:
  "\<exists>A A'. csr_cum_sum (one_hot_encode [''a'', ''b''] [''a'', ''b'', ''a'', ''a'', ''b'', ''a''])
            [1::nat, 1, 1, 2, 2, 2] 1 True = Inr A \<and>
         csr_cum_sum (one_hot_encode [''a'', ''b''] [''a'', ''b'', ''a'', ''a'', ''b'', ''a''])
            [1::nat, 1, 1, 2, 2, 2] 2 True = Inr A' \<and>
         0 \<le> csr_get A 5 0 \<and> csr_get A 5 0 \<le> csr_get A' 5 0 \<and> csr_get A' 5 0 \<le> 6"
proof -
  let ?m = "one_hot_encode [''a'', ''b''] [''a'', ''b'', ''a'', ''a'', ''b'', ''a'']"
  let ?v = "[1::nat, 1, 1, 2, 2, 2]"
  have wf: "csr_wf ?m" by code_simp
  have nn: "list_all (\<lambda>x. 0 \<le> x) (data ?m)" by code_simp
  have s: "sum_list (data ?m) = 6" by code_simp
  have total: "sum_list (data ?m) < 2 ^ 63" by (simp only: s) simp
  have len: "length ?v = nrows ?m" by code_simp
  have i: "5 < nrows ?m" and c: "0 < ncols ?m" by code_simp+
  have W: "(1::int) \<le> 1" "(1::int) \<le> 2" by simp_all
  from window_size_monotone [OF wf nn total len i c W, of True]
  show ?thesis unfolding s by (elim exE conjE) (intro exI conjI, assumption+)
qed

section \<open>The mask of the specification and the mask of the code\<close>

lemma length_same_group_at_distance [simp]: "length (same_group_at_distance v d ab) = length v"
  by (simp add: same_group_at_distance_def)

lemma same_group_at_distance_nth:
  "i < length v \<Longrightarrow>
   same_group_at_distance v d ab ! i
   = (if (if ab then i < d else length v \<le> i + d) then 0
      else is_same_after_shift v (int d * (if ab then 1 else - 1)) ! i)"
  by (simp add: same_group_at_distance_def)

lemma dense_row_Nil: "dense_row k [] = replicate k 0"
  by (rule nth_equalityI) (simp_all add: dense_row_def)

lemma masked_dense_cong:
  assumes "length s1 = length rs" and "length s2 = length rs"
    and "\<And>i. i < length rs \<Longrightarrow> s1 ! i = s2 ! i \<or> rs ! i = []"
  shows "masked_dense k s1 rs = masked_dense k s2 rs"
proof (rule nth_equalityI)
  show "length (masked_dense k s1 rs) = length (masked_dense k s2 rs)"
    using assms(1,2) by simp
next
  fix i assume "i < length (masked_dense k s1 rs)"
  then have i: "i < length rs" using assms(1) by simp
  have "map (\<lambda>x. s1 ! i * x) (dense_row k (rs ! i)) = map (\<lambda>x. s2 ! i * x) (dense_row k (rs ! i))"
    using assms(3) [OF i] by (auto simp: dense_row_Nil)
  then show "masked_dense k s1 rs ! i = masked_dense k s2 rs ! i"
    using i assms(1,2) by (simp add: masked_dense_def)
qed

lemma forced_mask_same_product:
  assumes ne: "rs \<noteq> []" and len: "length v = length rs"
  shows "masked_dense k (same_group_at_distance v d ab) ((shift_rows ab ^^ d) rs)
         = masked_dense k (is_same_after_shift v (int d * (if ab then 1 else - 1)))
             ((shift_rows ab ^^ d) rs)"
proof (rule masked_dense_cong)
  show "length (same_group_at_distance v d ab) = length ((shift_rows ab ^^ d) rs)"
    using ne len by simp
  show "length (is_same_after_shift v (int d * (if ab then 1 else - 1))) = length ((shift_rows ab ^^ d) rs)"
    using ne len by simp
next
  fix i assume "i < length ((shift_rows ab ^^ d) rs)"
  then have i: "i < length rs" using ne by simp
  show "same_group_at_distance v d ab ! i = is_same_after_shift v (int d * (if ab then 1 else - 1)) ! i
        \<or> (shift_rows ab ^^ d) rs ! i = []"
  proof (cases ab)
    case True
    then show ?thesis
      using i len ne by (simp add: same_group_at_distance_nth shift_down_pow_nth)
  next
    case False
    then show ?thesis
      using i len ne by (simp add: same_group_at_distance_nth shift_up_pow_nth)
  qed
qed

lemma cum_step_forced_rows:
  assumes "rs \<noteq> []" and "rows_in_range k rs" and "length v = length rs"
    and "length a = length rs" and "list_all (\<lambda>r. length r = k) a" and "0 \<le> i"
  shows "cum_steps_forced [i] v ab (from_dense k a) (of_rows k rs)
         = Inr (from_dense k (map2 (map2 (+)) a
                  (masked_dense k (same_group_at_distance v (nat i) ab) (shift_rows ab rs))),
                of_rows k (shift_rows ab rs))"
proof -
  let ?s = "same_group_at_distance v (nat i) ab"
  let ?rs' = "shift_rows ab rs"
  have sh: "csr_shift (of_rows k rs) ab = Inr (of_rows k ?rs')"
    by (rule csr_shift_of_rows [OF assms(1,2)])
  have len: "length ?s = length ?rs'" using assms(1,3) by simp
  have mm: "mask_multiply ?s (of_rows k ?rs') = Inr (from_dense k (masked_dense k ?s ?rs'))"
    by (rule mask_multiply_rows [OF len])
  have "length a = length (masked_dense k ?s ?rs')" using assms(1,3,4) by simp
  then have ad: "csr_add (from_dense k a) (from_dense k (masked_dense k ?s ?rs'))
        = Inr (from_dense k (map2 (map2 (+)) a (masked_dense k ?s ?rs')))"
    by (rule csr_add_dense [OF _ assms(5) masked_dense_rows])
  show ?thesis by (simp add: sh mm ad Let_def)
qed

lemma cum_steps_forced_rows:
  assumes ne: "rs \<noteq> []" and rng: "rows_in_range k rs" and len: "length v = length rs"
  shows "cum_steps_forced [1..int n] v ab (csr_zero (length rs) k) (of_rows k rs)
         = Inr (from_dense k (acc_dense k rs v ab n), of_rows k ((shift_rows ab ^^ n) rs))"
proof (induction n)
  case 0
  then show ?case by (simp add: csr_zero_from_dense)
next
  case (Suc n)
  let ?A = "acc_dense k rs v ab n" and ?R = "(shift_rows ab ^^ n) rs"
  have sh: "(shift_rows ab ^^ Suc n) rs = shift_rows ab ?R" by simp
  have same: "masked_dense k (same_group_at_distance v (Suc n) ab) (shift_rows ab ?R)
        = masked_dense k (is_same_after_shift v (int (Suc n) * (if ab then 1 else - 1)))
            (shift_rows ab ?R)"
    using forced_mask_same_product [OF ne len, of k "Suc n" ab] by (simp only: sh)
  have "cum_steps_forced [int (Suc n)] v ab (from_dense k ?A) (of_rows k ?R)
        = Inr (from_dense k (map2 (map2 (+)) ?A
                 (masked_dense k (same_group_at_distance v (nat (int (Suc n))) ab) (shift_rows ab ?R))),
               of_rows k (shift_rows ab ?R))"
  proof (rule cum_step_forced_rows)
    show "?R \<noteq> []" by (rule shift_rows_pow_not_Nil [OF ne])
    show "rows_in_range k ?R" by (rule shift_rows_pow_in_range [OF rng])
    show "length v = length ?R" using ne len by simp
    show "length ?A = length ?R" using ne len by simp
    show "list_all (\<lambda>r. length r = k) ?A" by (rule acc_dense_rows)
    show "0 \<le> int (Suc n)" by simp
  qed
  then have step: "cum_steps_forced [int (Suc n)] v ab (from_dense k ?A) (of_rows k ?R)
        = Inr (from_dense k (acc_dense k rs v ab (Suc n)),
               of_rows k ((shift_rows ab ^^ Suc n) rs))"
    by (simp only: nat_int same acc_dense.simps sh)
  show ?case
    by (simp only: upto_Suc_append cum_steps_forced_append Suc.IH sum.case fst_conv snd_conv step)
qed

lemma cum_steps_no_rows:
  "cum_steps [1..W] v ab acc (of_rows k []) = (if W < 1 then Inr (acc, of_rows k []) else Inl IndexError)"
proof (cases "W < 1")
  case True
  then show ?thesis by simp
next
  case False
  then have "[1..W] = 1 # [2..W]" by (simp add: upto_rec1)
  then show ?thesis using False by (simp add: csr_shift_no_rows)
qed

lemma cum_steps_forced_no_rows:
  "cum_steps_forced [1..W] v ab acc (of_rows k [])
   = (if W < 1 then Inr (acc, of_rows k []) else Inl IndexError)"
proof (cases "W < 1")
  case True
  then show ?thesis by simp
next
  case False
  then have "[1..W] = 1 # [2..W]" by (simp add: upto_rec1)
  then show ?thesis using False by (simp add: csr_shift_no_rows)
qed

text \<open>
  Claim C10. For a well-formed matrix and a group vector of the same length, the
  accumulator is the same (the same result, or the same failure) whether each round
  uses the plain rotated comparison \<open>is_same_after_shift\<close> or that mask with its first
  (earlier) or last (later) \<open>d\<close> entries forced to false: after \<open>d\<close> cumulative shifts the
  rows at those positions are empty.
\<close>

theorem mask_forcing_immaterial:
  assumes wf: "csr_wf m" and len: "length v = nrows m"
  shows "csr_cum_sum_forced m v W ab = csr_cum_sum m v W ab"
proof (cases "nrows m = 0")
  case True
  then have "csr_rows m = []" by (simp add: csr_rows_def)
  then have m: "m = of_rows (ncols m) []" using csr_wf_of_rows [OF wf] by simp
  have "csr_cum_sum_forced (of_rows (ncols m) []) v W ab = csr_cum_sum (of_rows (ncols m) []) v W ab"
    by (simp only: csr_cum_sum_forced_def csr_cum_sum_def cum_steps_no_rows cum_steps_forced_no_rows)
  then show ?thesis using m by simp
next
  case False
  let ?rs = "csr_rows m" and ?k = "ncols m"
  have ne: "?rs \<noteq> []" using False by (auto simp: csr_rows_def)
  have m: "of_rows ?k ?rs = m" using csr_wf_of_rows [OF wf] by simp
  have l: "length v = length ?rs" using len by simp
  have "cum_steps_forced [1..int (nat W)] v ab (csr_zero (length ?rs) ?k) (of_rows ?k ?rs)
        = cum_steps [1..int (nat W)] v ab (csr_zero (length ?rs) ?k) (of_rows ?k ?rs)"
    by (simp only: cum_steps_forced_rows [OF ne csr_wf_rows_in_range [OF wf] l]
        cum_steps_rows [OF ne csr_wf_rows_in_range [OF wf] l])
  then show ?thesis
    unfolding csr_cum_sum_def csr_cum_sum_forced_def upto_nat [of W] by (simp add: m)
qed

theorem mask_forcing_immaterial_witness:
  "csr_cum_sum_forced (one_hot_encode [''a'', ''b'', ''c''] [''a'', ''b'', ''c'', ''a''])
      [''G'', ''G'', ''G'', ''G''] 2 True
   = csr_cum_sum (one_hot_encode [''a'', ''b'', ''c''] [''a'', ''b'', ''c'', ''a''])
      [''G'', ''G'', ''G'', ''G''] 2 True \<and>
   same_group_at_distance [''G'', ''G'', ''G'', ''G''] 1 True
     \<noteq> is_same_after_shift [''G'', ''G'', ''G'', ''G''] 1"
proof -
  let ?m = "one_hot_encode [''a'', ''b'', ''c''] [''a'', ''b'', ''c'', ''a'']"
  let ?v = "[''G'', ''G'', ''G'', ''G'']"
  have wf: "csr_wf ?m" by code_simp
  have len: "length ?v = nrows ?m" by code_simp
  have "same_group_at_distance ?v 1 True \<noteq> is_same_after_shift ?v 1" by code_simp
  then show ?thesis using mask_forcing_immaterial [OF wf len, of 2 True] by simp
qed

section \<open>The assembled features\<close>

lemma hstack_dense:
  assumes "length a = length b"
    and "list_all (\<lambda>r. length r = k) a" and "list_all (\<lambda>r. length r = k') b"
  shows "hstack (from_dense k a) (from_dense k' b) = Inr (from_dense (k + k') (map2 (@) a b))"
  using assms by (simp add: hstack_def todense_from_dense)

lemma extract_features_rows:
  assumes wf: "csr_wf m" and n: "0 < nrows m" and len: "length v = nrows m"
  shows "extract_features m v W
         = Inr (from_dense (ncols m + ncols m)
                 (map2 (@) (acc_dense (ncols m) (csr_rows m) v True (nat W))
                           (acc_dense (ncols m) (csr_rows m) v False (nat W))))"
proof -
  let ?rs = "csr_rows m" and ?k = "ncols m"
  have ne: "?rs \<noteq> []" using n by (auto simp: csr_rows_def)
  have l: "length v = length ?rs" using len by simp
  have "length (acc_dense ?k ?rs v True (nat W)) = length (acc_dense ?k ?rs v False (nat W))"
    by (simp only: acc_dense_length [OF ne l])
  then have "hstack (from_dense ?k (acc_dense ?k ?rs v True (nat W)))
               (from_dense ?k (acc_dense ?k ?rs v False (nat W)))
        = Inr (from_dense (?k + ?k) (map2 (@) (acc_dense ?k ?rs v True (nat W))
                                        (acc_dense ?k ?rs v False (nat W))))"
    by (rule hstack_dense) (rule acc_dense_rows)+
  then show ?thesis
    by (simp add: extract_features_def csr_cum_sum_rows [OF wf n len])
qed

lemma extract_features_entries:
  assumes wf: "csr_wf m" and len: "length v = nrows m" and i: "i < nrows m" and c: "c < ncols m"
  shows "\<exists>X. extract_features m v W = Inr X \<and> nrows X = nrows m \<and> ncols X = 2 * ncols m \<and>
             csr_get X i c = window_sum (csr_rows m) v True (nat W) i c \<and>
             csr_get X i (ncols m + c) = window_sum (csr_rows m) v False (nat W) i c"
proof -
  let ?rs = "csr_rows m" and ?k = "ncols m"
  let ?a = "acc_dense ?k ?rs v True (nat W)" and ?b = "acc_dense ?k ?rs v False (nat W)"
  let ?d = "map2 (@) ?a ?b"
  have n: "0 < nrows m" using i by simp
  have ne: "?rs \<noteq> []" using n by (auto simp: csr_rows_def)
  have l: "length v = length ?rs" using len by simp
  have i': "i < length ?rs" using i by simp
  have la: "length ?a = nrows m" and lb: "length ?b = nrows m"
    using acc_dense_length [OF ne l] by simp_all
  have ra: "length (?a ! i) = ?k" and rb: "length (?b ! i) = ?k"
    by (rule acc_dense_row_length [OF ne l i'])+
  have di: "?d ! i = ?a ! i @ ?b ! i" using la lb i by simp
  have dl: "length ?d = nrows m" using la lb by simp
  have "csr_get (from_dense (?k + ?k) ?d) i c = ?d ! i ! c"
    by (rule csr_get_from_dense) (insert c, simp_all add: la lb i ra rb)
  also have "\<dots> = ?a ! i ! c" using c by (simp add: di ra nth_append)
  also have "\<dots> = window_sum ?rs v True (nat W) i c" by (rule acc_dense_nth [OF ne l i' c])
  finally have e1: "csr_get (from_dense (?k + ?k) ?d) i c = window_sum ?rs v True (nat W) i c" .
  have "csr_get (from_dense (?k + ?k) ?d) i (?k + c) = ?d ! i ! (?k + c)"
    by (rule csr_get_from_dense) (insert c, simp_all add: la lb i ra rb)
  also have "\<dots> = ?b ! i ! c" using c by (simp add: di ra nth_append)
  also have "\<dots> = window_sum ?rs v False (nat W) i c" by (rule acc_dense_nth [OF ne l i' c])
  finally have e2: "csr_get (from_dense (?k + ?k) ?d) i (?k + c) = window_sum ?rs v False (nat W) i c" .
  show ?thesis
    using extract_features_rows [OF wf n len, of W] e1 e2 dl by simp
qed

lemma csr_cum_sum_no_window: "W \<le> 0 \<Longrightarrow> csr_cum_sum m v W ab = Inr (csr_zero (nrows m) (ncols m))"
  by (simp add: csr_cum_sum_def)

lemma from_dense_zeros: "from_dense k (replicate n (replicate l 0)) = csr_zero n k"
  by (simp add: from_dense_def csr_zero_of_rows)

lemma extract_features_no_window:
  assumes "W \<le> 0"
  shows "extract_features m v W = Inr (csr_zero (nrows m) (2 * ncols m))"
proof -
  let ?n = "nrows m" and ?k = "ncols m"
  let ?z = "replicate ?n (replicate ?k (0::int))"
  have "extract_features m v W = hstack (csr_zero ?n ?k) (csr_zero ?n ?k)"
    using assms by (simp add: extract_features_def csr_cum_sum_no_window)
  also have "\<dots> = hstack (from_dense ?k ?z) (from_dense ?k ?z)"
    by (simp only: csr_zero_from_dense)
  also have "\<dots> = Inr (from_dense (?k + ?k) (map2 (@) ?z ?z))"
    by (rule hstack_dense) (simp_all add: list_all_iff)
  also have "map2 (@) ?z ?z = replicate ?n (replicate (?k + ?k) 0)"
    by (rule nth_equalityI) (simp_all add: replicate_add)
  also have "from_dense (?k + ?k) (replicate ?n (replicate (?k + ?k) 0)) = csr_zero ?n (?k + ?k)"
    by (rule from_dense_zeros)
  also have "?k + ?k = 2 * ?k" by simp
  finally show ?thesis .
qed

text \<open>
  Claim C7, as the code has it. The extraction does not check the window size. With a
  window size \<open>\<le> 0\<close> the loop body never runs and \<open>extract_features\<close> returns the
  all-zero \<open>(N, 2K)\<close> matrix, for every input. With a well-formed matrix of \<open>N \<ge> 1\<close> rows
  and a group vector of length \<open>N\<close> it returns an \<open>(N, 2K)\<close> matrix for every window size,
  also one that exceeds \<open>N\<close>.
\<close>

theorem extract_features_any_window:
  "(W \<le> 0 \<longrightarrow> extract_features m v W = Inr (csr_zero (nrows m) (2 * ncols m))) \<and>
   (csr_wf m \<and> 0 < nrows m \<and> length v = nrows m \<longrightarrow>
      (\<exists>X. extract_features m v W = Inr X \<and> nrows X = nrows m \<and> ncols X = 2 * ncols m))"
proof (intro conjI impI)
  assume "W \<le> 0"
  then show "extract_features m v W = Inr (csr_zero (nrows m) (2 * ncols m))"
    by (rule extract_features_no_window)
next
  assume a: "csr_wf m \<and> 0 < nrows m \<and> length v = nrows m"
  let ?rs = "csr_rows m"
  have ne: "?rs \<noteq> []" using a by (auto simp: csr_rows_def)
  have l: "length v = length ?rs" using a by simp
  show "\<exists>X. extract_features m v W = Inr X \<and> nrows X = nrows m \<and> ncols X = 2 * ncols m"
    using extract_features_rows [of m v W] a acc_dense_length [OF ne l] by simp
qed

theorem extract_features_any_window_witness:
  "extract_features (one_hot_encode [''a'', ''b'', ''c''] [''a'', ''b'', ''c'', ''a''])
      [''G'', ''G'', ''G'', ''G''] (- 3)
   = Inr (csr_zero 4 6) \<and>
   (\<exists>X. extract_features (one_hot_encode [''a'', ''b'', ''c''] [''a'', ''b'', ''c'', ''a''])
      [''G'', ''G'', ''G'', ''G''] 9 = Inr X \<and> nrows X = 4 \<and> ncols X = 6)"
proof -
  let ?m = "one_hot_encode [''a'', ''b'', ''c''] [''a'', ''b'', ''c'', ''a'']"
  let ?v = "[''G'', ''G'', ''G'', ''G'']"
  have wf: "csr_wf ?m" by code_simp
  have n: "nrows ?m = 4" "ncols ?m = 3" by code_simp+
  have len: "length ?v = nrows ?m" by code_simp
  show ?thesis
    using extract_features_any_window [of "- 3" ?m ?v] extract_features_any_window [of 9 ?m ?v]
      wf n len by simp
qed

text \<open>The claim as worded fails: window 0 and window 5 on a stream of 4 tokens both
  return a result.\<close>

theorem extract_features_no_invalid_window:
  "extract_features (one_hot_encode [''a'', ''b'', ''c''] [''a'', ''b'', ''c'', ''a''])
      [''G'', ''G'', ''G'', ''G''] 0
   = Inr \<lparr>nrows = 4, ncols = 6, indptr = [0, 0, 0, 0, 0], indices = [], data = []\<rparr> \<and>
   extract_features (one_hot_encode [''a'', ''b'', ''c''] [''a'', ''b'', ''c'', ''a''])
      [''G'', ''G'', ''G'', ''G''] 5
   = Inr \<lparr>nrows = 4, ncols = 6, indptr = [0, 3, 6, 9, 12],
          indices = [3, 4, 5, 0, 3, 5, 0, 1, 3, 0, 1, 2], data = [1, 1, 1, 1, 1, 1, 1, 1, 1, 1, 1, 1]\<rparr>"
  by code_simp

section \<open>The accumulator against the direct scan\<close>

subsection \<open>The one-hot matrix\<close>

lemma row_get_marks: "row_get (map (\<lambda>c. (c, 1)) xs) c = int (length (filter (\<lambda>x. x = c) xs))"
  by (induction xs) simp_all

lemma length_filter_upt_eq:
  "length (filter (\<lambda>x. P x \<and> x = c) [0..<k]) = (if c < k \<and> P c then 1 else 0)"
  by (induction k) (auto simp: less_Suc_eq)

lemma row_get_one_hot_row:
  "row_get (map (\<lambda>c. (c, 1)) (filter (\<lambda>c. vocab ! c = w) [0..<length vocab])) c
   = (if c < length vocab \<and> vocab ! c = w then 1 else 0)"
proof -
  have "filter (\<lambda>x. x = c) (filter (\<lambda>c. vocab ! c = w) [0..<length vocab])
        = filter (\<lambda>x. vocab ! x = w \<and> x = c) [0..<length vocab]"
    by (simp add: conj_commute)
  then show ?thesis
    by (simp only: row_get_marks length_filter_upt_eq) simp
qed

lemma csr_rows_one_hot:
  "csr_rows (one_hot_encode vocab words)
   = map (\<lambda>w. map (\<lambda>c. (c, 1)) (filter (\<lambda>c. vocab ! c = w) [0..<length vocab])) words"
  by (simp add: one_hot_encode_def)

lemma nrows_one_hot [simp]: "nrows (one_hot_encode vocab words) = length words"
  by (simp add: one_hot_encode_def)

lemma ncols_one_hot [simp]: "ncols (one_hot_encode vocab words) = length vocab"
  by (simp add: one_hot_encode_def)

lemma one_hot_wf: "csr_wf (one_hot_encode vocab words)"
  unfolding one_hot_encode_def
proof (rule of_rows_wf)
  show "rows_in_range (length vocab)
     (map (\<lambda>w. map (\<lambda>c. (c, 1)) (filter (\<lambda>c. vocab ! c = w) [0..<length vocab])) words)"
    by (auto simp: rows_in_range_def list_all_iff)
  show "list_all (\<lambda>r. sorted (map fst r))
     (map (\<lambda>w. map (\<lambda>c. (c, 1)) (filter (\<lambda>c. vocab ! c = w) [0..<length vocab])) words)"
    by (simp add: list_all_iff comp_def sorted_wrt_filter)
qed

lemma one_hot_entry:
  "j < length words \<Longrightarrow> c < length vocab \<Longrightarrow>
   row_get (csr_rows (one_hot_encode vocab words) ! j) c = (if words ! j = vocab ! c then 1 else 0)"
  by (simp only: csr_rows_one_hot nth_map row_get_one_hot_row) auto

subsection \<open>Sums of indicators\<close>

lemma sum_list_indicator: "(\<Sum>d\<leftarrow>xs. if Q d then 1 else 0) = int (length (filter Q xs))"
  by (induction xs) simp_all

lemma sum_list_map_cong: "(\<And>x. x \<in> set xs \<Longrightarrow> f x = g x) \<Longrightarrow> (\<Sum>x\<leftarrow>xs. f x) = (\<Sum>x\<leftarrow>xs. (g x :: int))"
  by (induction xs) simp_all

lemma window_sum_one_hot:
  assumes len: "length v = length words" and i: "i < length words" and c: "c < length vocab"
  shows "window_sum (csr_rows (one_hot_encode vocab words)) v ab n i c
         = int (length (filter
             (\<lambda>d. if ab then d \<le> i \<and> v ! (i - d) = v ! i \<and> words ! (i - d) = vocab ! c
                  else i + d < length words \<and> v ! (i + d) = v ! i \<and> words ! (i + d) = vocab ! c)
             [1..<Suc n]))"
proof -
  let ?rs = "csr_rows (one_hot_encode vocab words)"
  let ?Q = "\<lambda>d. if ab then d \<le> i \<and> v ! (i - d) = v ! i \<and> words ! (i - d) = vocab ! c
                  else i + d < length words \<and> v ! (i + d) = v ! i \<and> words ! (i + d) = vocab ! c"
  have lr: "length ?rs = length words" by (simp add: csr_rows_def)
  have "window_sum ?rs v ab n i c = (\<Sum>d\<leftarrow>[1..<Suc n]. if ?Q d then 1 else 0)"
    unfolding window_sum_def
  proof (rule sum_list_map_cong)
    fix d
    have e: "row_get (?rs ! (i - d)) c = (if words ! (i - d) = vocab ! c then 1 else 0)"
      by (rule one_hot_entry) (use i c in simp_all)
    have l: "i + d < length words \<Longrightarrow>
             row_get (?rs ! (i + d)) c = (if words ! (i + d) = vocab ! c then 1 else 0)"
      by (rule one_hot_entry) (use c in simp_all)
    show "(if ab then if d \<le> i \<and> v ! (i - d) = v ! i then row_get (?rs ! (i - d)) c else 0
           else if i + d < length ?rs \<and> v ! (i + d) = v ! i then row_get (?rs ! (i + d)) c else 0)
          = (if ?Q d then 1 else 0)"
      using e l by (simp add: lr)
  qed
  then show ?thesis by (simp only: sum_list_indicator)
qed

subsection \<open>A group is an interval of positions\<close>

lemma group_interval:
  assumes run: "contiguous_runs v" and g: "g \<in> set v"
  shows "\<exists>s e. s < e \<and> e \<le> length v \<and> (\<forall>j < length v. (v ! j = g) = (s \<le> j \<and> j < e))"
proof -
  let ?S = "{j. j < length v \<and> v ! j = g}"
  have fin: "finite ?S" by simp
  have ne: "?S \<noteq> {}" using g by (auto simp: in_set_conv_nth)
  let ?s = "Min ?S" and ?k = "Max ?S"
  have s: "?s \<in> ?S" and k: "?k \<in> ?S" using fin ne by (rule Min_in, rule Max_in)
  have sk: "?s \<le> ?k" using Min_le [OF fin k] .
  have "(v ! j = g) = (?s \<le> j \<and> j < Suc ?k)" if j: "j < length v" for j
  proof
    assume "v ! j = g"
    then have "j \<in> ?S" using j by simp
    then show "?s \<le> j \<and> j < Suc ?k" using fin by (simp add: less_Suc_eq_le)
  next
    assume b: "?s \<le> j \<and> j < Suc ?k"
    show "v ! j = g"
    proof (cases "j = ?k")
      case True
      then show ?thesis using k by simp
    next
      case False
      then have "j < ?k" using b by simp
      moreover have "v ! ?s = v ! ?k" "?k < length v" using s k by simp_all
      ultimately have "v ! j = v ! ?k" using contiguous_runsD [OF run, of ?s j ?k] b by simp
      then show ?thesis using k by simp
    qed
  qed
  moreover have "Suc ?k \<le> length v" using k by simp
  moreover have "?s < Suc ?k" using sk by simp
  ultimately show ?thesis by blast
qed

lemma filter_upt_interval:
  assumes "e \<le> n"
  shows "filter (\<lambda>i. s \<le> i \<and> i < e) [0..<n] = [s..<e]"
proof (rule sorted_distinct_set_unique)
  show "sorted (filter (\<lambda>i. s \<le> i \<and> i < e) [0..<n])" by (simp add: sorted_wrt_filter)
  show "distinct (filter (\<lambda>i. s \<le> i \<and> i < e) [0..<n])" by simp
  show "sorted [s..<e]" by simp
  show "distinct [s..<e]" by simp
  show "set (filter (\<lambda>i. s \<le> i \<and> i < e) [0..<n]) = set [s..<e]" using assms by auto
qed

lemma group_positions_interval:
  assumes "e \<le> length v" and "\<forall>j < length v. (v ! j = g) = (s \<le> j \<and> j < e)"
  shows "group_positions v g = [s..<e]"
proof -
  have "filter (\<lambda>i. v ! i = g) [0..<length v] = filter (\<lambda>i. s \<le> i \<and> i < e) [0..<length v]"
    using assms(2) by (intro filter_cong) simp_all
  then show ?thesis
    using filter_upt_interval [OF assms(1), of s] by (simp add: group_positions_def)
qed

subsection \<open>Counting by distance and counting by position\<close>

lemma count_earlier:
  "length (filter (\<lambda>d. d \<le> a \<and> P (a - d)) [1..<Suc n])
   = length (filter (\<lambda>b. P b \<and> b < a \<and> a \<le> b + n) [0..<m])" if "a < m" for a m n :: nat
proof -
  let ?D = "{d. d \<le> a \<and> P (a - d)} \<inter> set [1..<Suc n]"
  let ?B = "{b. P b \<and> b < a \<and> a \<le> b + n} \<inter> set [0..<m]"
  have "bij_betw (\<lambda>d. a - d) ?D ?B"
    by (rule bij_betw_byWitness [where f' = "\<lambda>b. a - b"]) (use that in auto)
  then have "card ?D = card ?B" by (rule bij_betw_same_card)
  then show ?thesis by (simp only: distinct_length_filter distinct_upt)
qed

lemma count_later:
  "length (filter (\<lambda>d. a + d < m \<and> P (a + d)) [1..<Suc n])
   = length (filter (\<lambda>b. P b \<and> a < b \<and> b \<le> a + n) [0..<m])" for a m n :: nat
proof -
  let ?D = "{d. a + d < m \<and> P (a + d)} \<inter> set [1..<Suc n]"
  let ?B = "{b. P b \<and> a < b \<and> b \<le> a + n} \<inter> set [0..<m]"
  have "bij_betw (\<lambda>d. a + d) ?D ?B"
    by (rule bij_betw_byWitness [where f' = "\<lambda>b. b - a"]) auto
  then have "card ?D = card ?B" by (rule bij_betw_same_card)
  then show ?thesis by (simp only: distinct_length_filter distinct_upt)
qed

lemma filter_cong_length:
  "(\<And>x. x \<in> set xs \<Longrightarrow> P x = Q x) \<Longrightarrow> length (filter P xs) = length (filter Q xs)"
  by (induction xs) simp_all

lemma group_window_count:
  assumes len: "length v = length words"
    and e: "e \<le> length v" and iv: "\<forall>j < length v. (v ! j = g) = (s \<le> j \<and> j < e)"
    and a: "s + a < e"
  shows "int (length (filter
             (\<lambda>d. if ab then d \<le> s + a \<and> v ! (s + a - d) = v ! (s + a) \<and> words ! (s + a - d) = x
                  else s + a + d < length words \<and> v ! (s + a + d) = v ! (s + a) \<and> words ! (s + a + d) = x)
             [1..<Suc n]))
         = window_count (map ((!) words) [s..<e]) n ab a x"
proof -
  let ?i = "s + a" and ?m = "e - s"
  have i: "?i < length v" using a e by simp
  have gi: "v ! ?i = g" using iv i a by simp
  have am: "a < ?m" using a by simp
  have lab: "map ((!) words) [s..<e] ! b = words ! (s + b)" if "b < ?m" for b
    using that by simp
  show ?thesis
  proof (cases ab)
    case True
    have q: "(d \<le> ?i \<and> v ! (?i - d) = v ! ?i \<and> words ! (?i - d) = x)
             = (d \<le> a \<and> words ! (s + (a - d)) = x)" for d
    proof (cases "d \<le> a")
      case le: True
      then have "?i - d = s + (a - d)" by simp
      moreover have b1: "s \<le> s + (a - d)" "s + (a - d) < e" using a le by arith+
      then have "s + (a - d) < length v" using e by simp
      with iv b1 have "v ! (s + (a - d)) = g" by blast
      ultimately show ?thesis using le gi by simp
    next
      case gt: False
      have "v ! (?i - d) \<noteq> g" if "d \<le> ?i"
      proof -
        have "?i - d < s" using gt that by simp
        moreover have "?i - d < length v" using i by simp
        ultimately show ?thesis using iv by simp
      qed
      then show ?thesis using gt gi by auto
    qed
    have "length (filter (\<lambda>d. d \<le> ?i \<and> v ! (?i - d) = v ! ?i \<and> words ! (?i - d) = x) [1..<Suc n])
          = length (filter (\<lambda>d. d \<le> a \<and> words ! (s + (a - d)) = x) [1..<Suc n])"
      by (simp only: q)
    also have "\<dots> = length (filter (\<lambda>b. words ! (s + b) = x \<and> b < a \<and> a \<le> b + n) [0..<?m])"
      by (rule count_earlier [OF am, of "\<lambda>b. words ! (s + b) = x" n])
    also have "\<dots> = length (filter (\<lambda>b. map ((!) words) [s..<e] ! b = x \<and> b < a \<and> a \<le> b + n) [0..<?m])"
      by (rule filter_cong_length) (simp add: lab)
    finally show ?thesis using True by (simp add: window_count_def)
  next
    case False
    have q: "(?i + d < length words \<and> v ! (?i + d) = v ! ?i \<and> words ! (?i + d) = x)
             = (a + d < ?m \<and> words ! (s + (a + d)) = x)" for d
    proof (cases "?i + d < length v")
      case lt: True
      then have "(v ! (?i + d) = g) = (?i + d < e)" using iv by simp
      moreover have "(?i + d < e) = (a + d < ?m)" by auto
      ultimately show ?thesis using lt gi len by (simp add: add.assoc)
    next
      case ge: False
      then have "\<not> a + d < ?m" using e by simp
      then show ?thesis using ge len by simp
    qed
    have "length (filter (\<lambda>d. ?i + d < length words \<and> v ! (?i + d) = v ! ?i \<and> words ! (?i + d) = x) [1..<Suc n])
          = length (filter (\<lambda>d. a + d < ?m \<and> words ! (s + (a + d)) = x) [1..<Suc n])"
      by (simp only: q)
    also have "\<dots> = length (filter (\<lambda>b. words ! (s + b) = x \<and> a < b \<and> b \<le> a + n) [0..<?m])"
      by (rule count_later [of a ?m "\<lambda>b. words ! (s + b) = x" n])
    also have "\<dots> = length (filter (\<lambda>b. map ((!) words) [s..<e] ! b = x \<and> a < b \<and> b \<le> a + n) [0..<?m])"
      by (rule filter_cong_length) (simp add: lab)
    finally show ?thesis using False by (simp add: window_count_def)
  qed
qed

subsection \<open>The equivalence\<close>

text \<open>
  Claim C1. Take a token stream whose group identifiers form contiguous runs, a
  vocabulary of distinct labels, a window size \<open>W\<close>, a group \<open>g\<close> of the stream, a
  category \<open>c\<close>. \<open>extract_features\<close> on the one-hot matrix returns an \<open>(N, 2K)\<close> matrix.
  Restricted to the positions of \<open>g\<close>, its column \<open>c\<close> (the "earlier" accumulator of
  \<open>csr_cum_sum\<close>) is the direct scan of the labels of \<open>g\<close> with a window of \<open>W\<close> entries
  before each entry, and its column \<open>K + c\<close> (the "later" accumulator) is the scan with a
  window of \<open>W\<close> entries after each entry.
\<close>

theorem direct_computation_equivalence:
  assumes len: "length words = length v" and run: "contiguous_runs v" and dist: "distinct vocab"
    and g: "g \<in> set v" and c: "c < length vocab"
  shows "\<exists>X. extract_features (one_hot_encode vocab words) v W = Inr X \<and>
           nrows X = length words \<and> ncols X = 2 * length vocab \<and>
           map (\<lambda>i. csr_get X i c) (group_positions v g)
           = map (\<lambda>a. window_count (map ((!) words) (group_positions v g)) (nat W) True a (vocab ! c))
               [0..<length (group_positions v g)] \<and>
           map (\<lambda>i. csr_get X i (length vocab + c)) (group_positions v g)
           = map (\<lambda>a. window_count (map ((!) words) (group_positions v g)) (nat W) False a (vocab ! c))
               [0..<length (group_positions v g)]"
proof -
  let ?m = "one_hot_encode vocab words"
  let ?K = "length vocab"
  have wf: "csr_wf ?m" by (rule one_hot_wf)
  have lv: "length v = nrows ?m" using len by simp
  have n: "0 < nrows ?m" using g len by (cases v) auto
  obtain s e where se: "s < e" "e \<le> length v"
    and iv: "\<forall>j < length v. (v ! j = g) = (s \<le> j \<and> j < e)"
    using group_interval [OF run g] by blast
  have gp: "group_positions v g = [s..<e]" by (rule group_positions_interval [OF se(2) iv])
  obtain X where X: "extract_features ?m v W = Inr X"
    using extract_features_rows [OF wf n lv, of W] by blast
  have entry: "csr_get X (s + a) c = window_count (map ((!) words) [s..<e]) (nat W) True a (vocab ! c) \<and>
               csr_get X (s + a) (?K + c) = window_count (map ((!) words) [s..<e]) (nat W) False a (vocab ! c)"
    if a: "s + a < e" for a
  proof -
    have i: "s + a < nrows ?m" using a se(2) len by simp
    have i': "s + a < length words" using i by simp
    have c': "c < ncols ?m" using c by simp
    obtain X' where X': "extract_features ?m v W = Inr X'"
      "csr_get X' (s + a) c = window_sum (csr_rows ?m) v True (nat W) (s + a) c"
      "csr_get X' (s + a) (ncols ?m + c) = window_sum (csr_rows ?m) v False (nat W) (s + a) c"
      using extract_features_entries [OF wf lv i c', of W] by blast
    have eq: "X' = X" using X X'(1) by simp
    have l: "length v = length words" using len by simp
    have "csr_get X (s + a) c = window_count (map ((!) words) [s..<e]) (nat W) True a (vocab ! c)"
      using X'(2) group_window_count [OF l se(2) iv a, of True "vocab ! c" "nat W"]
      by (simp add: eq window_sum_one_hot [OF l i' c])
    moreover have "csr_get X (s + a) (?K + c)
        = window_count (map ((!) words) [s..<e]) (nat W) False a (vocab ! c)"
      using X'(3) group_window_count [OF l se(2) iv a, of False "vocab ! c" "nat W"]
      by (simp add: eq window_sum_one_hot [OF l i' c])
    ultimately show ?thesis by simp
  qed
  have shape: "nrows X = length words \<and> ncols X = 2 * ?K"
  proof -
    have i: "s < nrows ?m" using se len by simp
    have c': "c < ncols ?m" using c by simp
    obtain X' where "extract_features ?m v W = Inr X'" "nrows X' = nrows ?m" "ncols X' = 2 * ncols ?m"
      using extract_features_entries [OF wf lv i c', of W] by blast
    then show ?thesis using X by simp
  qed
  have m1: "map (\<lambda>i. csr_get X i c) [s..<e]
        = map (\<lambda>a. window_count (map ((!) words) [s..<e]) (nat W) True a (vocab ! c)) [0..<length [s..<e]]"
    by (rule nth_equalityI) (use entry in simp_all)
  have m2: "map (\<lambda>i. csr_get X i (?K + c)) [s..<e]
        = map (\<lambda>a. window_count (map ((!) words) [s..<e]) (nat W) False a (vocab ! c)) [0..<length [s..<e]]"
    by (rule nth_equalityI) (use entry in simp_all)
  show ?thesis using X shape m1 m2 by (simp only: gp) blast
qed

theorem direct_computation_equivalence_witness:
  "\<exists>X. extract_features (one_hot_encode [''a'', ''b''] [''a'', ''b'', ''a'', ''a'', ''b'', ''a''])
          [1::nat, 1, 1, 2, 2, 2] 2 = Inr X \<and>
       map (\<lambda>i. csr_get X i 0) [3, 4, 5] = [0, 1, 1] \<and>
       map (\<lambda>i. csr_get X i 2) [3, 4, 5] = [1, 1, 0]"
proof -
  let ?vocab = "[''a'', ''b'']" and ?words = "[''a'', ''b'', ''a'', ''a'', ''b'', ''a'']"
  let ?v = "[1::nat, 1, 1, 2, 2, 2]"
  have len: "length ?words = length ?v" by simp
  have run: "contiguous_runs ?v" by code_simp
  have dist: "distinct ?vocab" by simp
  have g: "2 \<in> set ?v" by simp
  have c: "0 < length ?vocab" by simp
  have gp: "group_positions ?v 2 = [3, 4, 5]" by code_simp
  have w1: "map (\<lambda>a. window_count (map ((!) ?words) [3, 4, 5]) (nat 2) True a (?vocab ! 0)) [0..<length [3, 4, 5 :: nat]]
            = [0, 1, 1]" by code_simp
  have w2: "map (\<lambda>a. window_count (map ((!) ?words) [3, 4, 5]) (nat 2) False a (?vocab ! 0)) [0..<length [3, 4, 5 :: nat]]
            = [1, 1, 0]" by code_simp
  have k: "length ?vocab + 0 = 2" by simp
  show ?thesis
    using direct_computation_equivalence [OF len run dist g c, of 2]
    unfolding gp w1 w2 k by (elim exE conjE) (intro exI conjI, assumption+)
qed

text \<open>The direct count is at most the number of labels of the group, hence at most the
  number of tokens: on a stream that a numpy array can hold, the \<^verbatim>\<open>np.int64\<close> counts of
  the accumulation above are far from wrapping.\<close>

lemma window_count_le_length: "window_count ls W earlier a c \<le> int (length ls)"
proof -
  have "length (filter P [0..<length ls]) \<le> length ls" for P :: "nat \<Rightarrow> bool"
    using length_filter_le [of P "[0..<length ls]"] by simp
  then show ?thesis by (simp add: window_count_def)
qed

end
